theory Spec2Isabelle
  imports Main "HOL-Library.Word"
begin

section \<open>Data model of the ordered mutex\<close>

text \<open>
  A ticket is a \<open>uint64\<close> (\<open>type ticket uint64\<close>, with \<open>ID()\<close> the value itself), so
  positions are 64-bit words: \<open>+\<close> wraps around and \<open><\<close> is the unsigned order, as in Go.
  A channel \<open>chan struct{}\<close> is an identity handed out by \<open>make\<close>; only its identity and
  whether it has been closed matter to the code.
\<close>

type_synonym u64 = "64 word"
type_synonym chan = nat

text \<open>
  The struct \<open>orderMutex\<close>. The field \<open>next\<close> is called \<open>next_id\<close> here, \<open>next\<close> being a
  keyword of the proof language. The field \<open>mu\<close> has no counterpart: every function below is
  one critical section of \<open>mu\<close> and is modelled as one atomic state transformer.
  \<open>burned\<close> is Go's \<open>map[uint64]struct{}\<close>, a set of keys.
\<close>

record orderMutex =
  next_id :: u64
  cur :: u64
  waiters :: "u64 \<rightharpoonup> chan"
  burned :: "u64 set"

text \<open>
  The part of the Go runtime the code touches, next to the struct: how many channels
  \<open>make\<close> has created so far (the next one gets that number), and the channels closed so
  far, in the order of the \<open>close\<close> calls.
\<close>

record runtime = orderMutex +
  nchan :: nat
  closed :: "chan list"

text \<open>
  The two ways the code can panic: the explicit \<open>panic\<close> of \<open>Unlock\<close>, and Go's run-time
  panic of \<open>close\<close> on a channel that is closed already.
\<close>

datatype panic = UnlockNotHolder | CloseOfClosedChannel

text \<open>What the critical section of \<open>Lock\<close> decides: return at once, or block on a channel.\<close>

datatype lock_outcome = Enter | Park chan

section \<open>The operations\<close>

definition New :: runtime where
  "New = \<lparr>next_id = 0, cur = 0, waiters = Map.empty, burned = {}, nchan = 0, closed = []\<rparr>"

text \<open>\<open>id := m.next.Add(1) - 1\<close>: the atomic add returns the new value.\<close>

definition GetTicket :: "runtime \<Rightarrow> u64 \<times> runtime" where
  "GetTicket m = (let n = next_id m + 1 in (n - 1, m\<lparr>next_id := n\<rparr>))"

text \<open>
  \<open>Lock\<close> up to \<open>m.mu.Unlock()\<close>: the fast path returns, the slow path looks up or creates
  the ticket's channel and then blocks on it.
\<close>

definition Lock_enter :: "runtime \<Rightarrow> u64 \<Rightarrow> lock_outcome \<times> runtime" where
  "Lock_enter m tid =
     (if tid = cur m then (Enter, m)
      else (case waiters m tid of
              Some ch \<Rightarrow> (Park ch, m)
            | None \<Rightarrow>
                (let ch = nchan m
                 in (Park ch, m\<lparr>waiters := (waiters m)(tid \<mapsto> ch), nchan := nchan m + 1\<rparr>))))"

text \<open>
  \<open><-ch\<close> on a channel nobody sends on: the receive returns once the channel is closed,
  and blocks as long as it is open.
\<close>

definition recv_ready :: "runtime \<Rightarrow> chan \<Rightarrow> bool" where
  "recv_ready m ch = (ch \<in> set (closed m))"

definition close_chan :: "chan \<Rightarrow> runtime \<Rightarrow> panic + runtime" where
  "close_chan ch m =
     (if ch \<in> set (closed m) then Inl CloseOfClosedChannel
      else Inr (m\<lparr>closed := closed m @ [ch]\<rparr>))"

text \<open>
  The \<open>for\<close> loop of \<open>advanceAndWakeNext\<close>. Every round deletes a key of \<open>burned\<close>, which is
  why the loop ends.
\<close>

function advanceAndWakeNext_loop :: "runtime \<Rightarrow> runtime" where
  "advanceAndWakeNext_loop m =
     (if cur m \<notin> burned m then m
      else advanceAndWakeNext_loop (m\<lparr>burned := burned m - {cur m}, cur := cur m + 1\<rparr>))"
  by pat_completeness auto
termination
proof (relation "measure (\<lambda>m. card (burned m))")
  show "wf (measure (\<lambda>m. card (burned m)))"
    by simp
next
  fix m :: runtime
  assume "\<not> cur m \<notin> burned m"
  then have "card (burned m - {cur m}) < card (burned m)"
    by (metis card_Diff1_less finite)
  then show "(m\<lparr>burned := burned m - {cur m}, cur := cur m + 1\<rparr>, m)
      \<in> measure (\<lambda>m. card (burned m))"
    by simp
qed

declare advanceAndWakeNext_loop.simps [simp del]

definition advanceAndWakeNext :: "runtime \<Rightarrow> panic + runtime" where
  "advanceAndWakeNext m =
     (let m1 = advanceAndWakeNext_loop m
      in (case waiters m1 (cur m1) of
            Some ch \<Rightarrow> close_chan ch (m1\<lparr>waiters := (waiters m1)(cur m1 := None)\<rparr>)
          | None \<Rightarrow> Inr m1))"

definition Unlock :: "runtime \<Rightarrow> u64 \<Rightarrow> panic + runtime" where
  "Unlock m tid =
     (if tid \<noteq> cur m then Inl UnlockNotHolder
      else advanceAndWakeNext (m\<lparr>cur := cur m + 1\<rparr>))"

definition ReturnTicket :: "runtime \<Rightarrow> u64 \<Rightarrow> panic + runtime" where
  "ReturnTicket m tid =
     (if tid < cur m then Inr m
      else (let m1 = m\<lparr>burned := insert tid (burned m)\<rparr>;
                m2 = (case waiters m1 tid of
                        Some ch \<Rightarrow> m1\<lparr>waiters := (waiters m1)(tid := None)\<rparr>
                      | None \<Rightarrow> m1)
            in advanceAndWakeNext m2))"

section \<open>Well-formed channel bookkeeping\<close>

text \<open>
  What Go guarantees about the channels stored in \<open>waiters\<close>, and what the code maintains:
  a stored channel has not been closed (\<open>close\<close> is only ever called on an entry that is
  deleted in the same breath), and no two positions share a channel (each entry is a fresh
  \<open>make\<close>). Channels in use have been created.
\<close>

definition waiters_open :: "runtime \<Rightarrow> bool" where
  "waiters_open m = (\<forall>p ch. waiters m p = Some ch \<longrightarrow> ch \<notin> set (closed m))"

definition waiters_distinct :: "runtime \<Rightarrow> bool" where
  "waiters_distinct m = (\<forall>p q ch. waiters m p = Some ch \<and> waiters m q = Some ch \<longrightarrow> p = q)"

definition chans_allocated :: "runtime \<Rightarrow> bool" where
  "chans_allocated m =
     ((\<forall>p ch. waiters m p = Some ch \<longrightarrow> ch < nchan m) \<and> (\<forall>ch \<in> set (closed m). ch < nchan m))"

definition chans_ok :: "runtime \<Rightarrow> bool" where
  "chans_ok m = (waiters_open m \<and> waiters_distinct m \<and> chans_allocated m)"

section \<open>Calls and reachable states\<close>

text \<open>
  One call of the interface, as far as it changes the state: for \<open>Lock\<close> that is its
  critical section (the receive \<open><-ch\<close> that may follow changes nothing). A state is
  reachable when some sequence of calls, by any callers and in any order, leads to it from
  \<open>New\<close> without a panic.
\<close>

datatype call = CGetTicket | CLock u64 | CUnlock u64 | CReturnTicket u64

fun run_call :: "call \<Rightarrow> runtime \<Rightarrow> panic + runtime" where
  "run_call CGetTicket m = Inr (snd (GetTicket m))"
| "run_call (CLock tid) m = Inr (snd (Lock_enter m tid))"
| "run_call (CUnlock tid) m = Unlock m tid"
| "run_call (CReturnTicket tid) m = ReturnTicket m tid"

inductive reachable :: "runtime \<Rightarrow> bool" where
  reachable_New: "reachable New"
| reachable_call: "reachable m \<Longrightarrow> run_call c m = Inr m' \<Longrightarrow> reachable m'"

text \<open>The tickets that the \<open>GetTicket\<close> calls of a sequence of calls return, in order.\<close>

fun issued_by :: "call list \<Rightarrow> runtime \<Rightarrow> u64 list" where
  "issued_by [] m = []"
| "issued_by (CGetTicket # cs) m = fst (GetTicket m) # issued_by cs (snd (GetTicket m))"
| "issued_by (c # cs) m = (case run_call c m of Inl e \<Rightarrow> [] | Inr m' \<Rightarrow> issued_by cs m')"

section \<open>Example states\<close>

text \<open>
  \<open>busy_state\<close>: positions 0 to 5 issued, 0 released, 1 at the front and not yet locked,
  2 and 4 cancelled, 3 and 5 blocked in \<open>Lock\<close> on channels 0 and 1.
\<close>

definition busy_state :: runtime where
  "busy_state = \<lparr>next_id = 6, cur = 1, waiters = [3 \<mapsto> 0, 5 \<mapsto> 1], burned = {2, 4},
     nchan = 2, closed = []\<rparr>"

text \<open>\<open>skip_state\<close>: the same, with position 1 cancelled too and not yet skipped.\<close>

definition skip_state :: runtime where
  "skip_state = busy_state\<lparr>burned := {1, 2, 4}\<rparr>"

text \<open>
  \<open>last_state\<close>: all \<open>2^64\<close> positions have been issued, so that \<open>next\<close> is back at 0, and
  all but the last have been released; the last one, \<open>2^64 - 1\<close>, is at the front.
\<close>

definition last_state :: runtime where
  "last_state = New\<lparr>next_id := 0, cur := - 1\<rparr>"

section \<open>Callers that keep the usage contract\<close>

text \<open>
  The callers are goroutines that interleave freely. Every critical section of \<open>mu\<close>, the
  atomic add of \<open>GetTicket\<close>, and the return of \<open>Lock\<close> is one step of the system; a caller
  blocked in \<open>Lock\<close> stays where it is until its channel is closed. What the callers have
  done so far is kept per position: not issued yet, issued, inside \<open>Lock\<close> (with what its
  critical section decided), holding the lock, released, or cancelled.
\<close>

datatype phase = Unissued | Pending | InLock lock_outcome | Admitted | Released | Cancelled

record system =
  mem :: runtime
  phases :: "u64 \<Rightarrow> phase"
  admitted :: "u64 list"

definition init :: system where
  "init = \<lparr>mem = New, phases = (\<lambda>p. Unissued), admitted = []\<rparr>"

datatype event = Issue u64 | LockCall u64 | LockReturn u64 | UnlockCall u64 | Cancel u64

text \<open>
  The steps callers may take under the usage contract: a position is used only once it is
  issued, and \<open>next\<close> is never made to wrap (the counter's width is not exceeded); \<open>Lock\<close> is
  called once, on a position that has not been cancelled; \<open>Unlock\<close> is called by the holder,
  after its \<open>Lock\<close> has returned; \<open>ReturnTicket\<close> is called before \<open>Lock\<close> (which cancels the
  position) or after \<open>Unlock\<close>, or again on a cancelled position. \<open>admitted\<close> records the
  positions whose \<open>Lock\<close> has returned, in the order of the returns. A call that panics is
  no step; below, \<open>legal_calls_return\<close> shows that these callers never meet one.
\<close>

inductive step :: "system \<Rightarrow> event \<Rightarrow> system \<Rightarrow> bool" where
  issue:
    "next_id (mem s) \<noteq> - 1 \<Longrightarrow> GetTicket (mem s) = (t, m') \<Longrightarrow>
     step s (Issue t) (s\<lparr>mem := m', phases := (phases s)(t := Pending)\<rparr>)"
| lock_call:
    "phases s t = Pending \<Longrightarrow> Lock_enter (mem s) t = (r, m') \<Longrightarrow>
     step s (LockCall t) (s\<lparr>mem := m', phases := (phases s)(t := InLock r)\<rparr>)"
| lock_return_fast:
    "phases s t = InLock Enter \<Longrightarrow>
     step s (LockReturn t) (s\<lparr>phases := (phases s)(t := Admitted), admitted := admitted s @ [t]\<rparr>)"
| lock_return_woken:
    "phases s t = InLock (Park ch) \<Longrightarrow> recv_ready (mem s) ch \<Longrightarrow>
     step s (LockReturn t) (s\<lparr>phases := (phases s)(t := Admitted), admitted := admitted s @ [t]\<rparr>)"
| unlock:
    "phases s t = Admitted \<Longrightarrow> Unlock (mem s) t = Inr m' \<Longrightarrow>
     step s (UnlockCall t) (s\<lparr>mem := m', phases := (phases s)(t := Released)\<rparr>)"
| cancel:
    "phases s t = Pending \<Longrightarrow> ReturnTicket (mem s) t = Inr m' \<Longrightarrow>
     step s (Cancel t) (s\<lparr>mem := m', phases := (phases s)(t := Cancelled)\<rparr>)"
| cancel_again:
    "phases s t = Released \<or> phases s t = Cancelled \<Longrightarrow> ReturnTicket (mem s) t = Inr m' \<Longrightarrow>
     step s (Cancel t) (s\<lparr>mem := m'\<rparr>)"

inductive legal :: "system \<Rightarrow> bool" where
  legal_init: "legal init"
| legal_step: "legal s \<Longrightarrow> step s e s' \<Longrightarrow> legal s'"

text \<open>The same steps as a function, to run a given sequence of events.\<close>

fun fire :: "event \<Rightarrow> system \<Rightarrow> system option" where
  "fire (Issue t) s =
     (if next_id (mem s) \<noteq> - 1 \<and> fst (GetTicket (mem s)) = t
      then Some (s\<lparr>mem := snd (GetTicket (mem s)), phases := (phases s)(t := Pending)\<rparr>)
      else None)"
| "fire (LockCall t) s =
     (if phases s t = Pending
      then Some (s\<lparr>mem := snd (Lock_enter (mem s) t),
                   phases := (phases s)(t := InLock (fst (Lock_enter (mem s) t)))\<rparr>)
      else None)"
| "fire (LockReturn t) s =
     (if phases s t = InLock Enter
         \<or> (\<exists>ch \<in> set (closed (mem s)). phases s t = InLock (Park ch))
      then Some (s\<lparr>phases := (phases s)(t := Admitted), admitted := admitted s @ [t]\<rparr>)
      else None)"
| "fire (UnlockCall t) s =
     (case Unlock (mem s) t of
        Inl e \<Rightarrow> None
      | Inr m' \<Rightarrow>
          if phases s t = Admitted
          then Some (s\<lparr>mem := m', phases := (phases s)(t := Released)\<rparr>)
          else None)"
| "fire (Cancel t) s =
     (case ReturnTicket (mem s) t of
        Inl e \<Rightarrow> None
      | Inr m' \<Rightarrow>
          if phases s t = Pending
          then Some (s\<lparr>mem := m', phases := (phases s)(t := Cancelled)\<rparr>)
          else if phases s t = Released \<or> phases s t = Cancelled
          then Some (s\<lparr>mem := m'\<rparr>)
          else None)"

fun fire_all :: "event list \<Rightarrow> system \<Rightarrow> system option" where
  "fire_all [] s = Some s"
| "fire_all (e # es) s = (case fire e s of None \<Rightarrow> None | Some s' \<Rightarrow> fire_all es s')"

text \<open>The positions below \<open>c\<close> in increasing order: \<open>0, 1, ..., c - 1\<close>.\<close>

definition below :: "u64 \<Rightarrow> u64 list" where
  "below c = map of_nat [0..<unat c]"

text \<open>
  The invariant of the spec: \<open>next \<ge> cur\<close>, waiters only at positions \<open>\<ge> cur\<close> (a map has at
  most one entry per position), no burned position \<open>< cur\<close>.
\<close>

definition spec_inv :: "runtime \<Rightarrow> bool" where
  "spec_inv m =
     (cur m \<le> next_id m
      \<and> (\<forall>p ch. waiters m p = Some ch \<longrightarrow> cur m \<le> p)
      \<and> (\<forall>p\<in>burned m. cur m \<le> p))"

text \<open>
  What holds of the state and the callers together at every point of the skip loop
  (\<open>pre_inv\<close>), and between calls (\<open>sys_inv\<close>): the channels are well-formed; positions from
  \<open>next\<close> on are the ones not issued; positions below \<open>cur\<close> are released or cancelled, and
  released ones are below \<open>cur\<close>; a holder, or a caller about to return from \<open>Lock\<close>, is at
  \<open>cur\<close>; a blocked caller is registered in \<open>waiters\<close> with its channel; \<open>burned\<close> holds the
  cancelled positions from \<open>cur\<close> on; \<open>waiters\<close> holds blocked callers only; and the
  admissions so far are the released positions in increasing order, followed by the holder.
\<close>

definition pre_inv :: "runtime \<Rightarrow> (u64 \<Rightarrow> phase) \<Rightarrow> u64 list \<Rightarrow> bool" where
  "pre_inv m ph adm =
     (chans_ok m
      \<and> cur m \<le> next_id m
      \<and> (\<forall>p. ph p = Unissued \<longleftrightarrow> next_id m \<le> p)
      \<and> (\<forall>p. p < cur m \<longrightarrow> ph p = Released \<or> ph p = Cancelled)
      \<and> (\<forall>p. ph p = Released \<longrightarrow> p < cur m)
      \<and> (\<forall>p. ph p = Admitted \<or> ph p = InLock Enter \<longrightarrow> p = cur m \<and> cur m \<notin> burned m)
      \<and> (\<forall>p ch. ph p = InLock (Park ch) \<longrightarrow>
            waiters m p = Some ch \<or> (p = cur m \<and> cur m \<notin> burned m \<and> ch \<in> set (closed m)))
      \<and> (\<forall>p. p \<in> burned m \<longleftrightarrow> cur m \<le> p \<and> ph p = Cancelled)
      \<and> (\<forall>p ch. waiters m p = Some ch \<longrightarrow> ph p = InLock (Park ch))
      \<and> adm = filter (\<lambda>p. ph p = Released) (below (cur m))
              @ (if ph (cur m) = Admitted then [cur m] else []))"

definition sys_inv :: "system \<Rightarrow> bool" where
  "sys_inv s = (pre_inv (mem s) (phases s) (admitted s)
      \<and> cur (mem s) \<notin> burned (mem s) \<and> waiters (mem s) (cur (mem s)) = None)"

text \<open>
  A run of three callers: position 2 blocks in \<open>Lock\<close>, position 1 is cancelled, position 0
  locks and unlocks, which skips 1 and wakes 2; then 2 locks, unlocks and returns its ticket.
  \<open>demo_held\<close> is the state after seven events, \<open>demo_woken\<close> after eight, \<open>demo_final\<close> the
  last.
\<close>

definition demo_events :: "event list" where
  "demo_events = [Issue 0, Issue 1, Issue 2, LockCall 2, Cancel 1, LockCall 0, LockReturn 0,
     UnlockCall 0, LockReturn 2, UnlockCall 2, Cancel 2]"

definition demo_held :: system where
  "demo_held = \<lparr>mem = \<lparr>next_id = 3, cur = 0, waiters = [2 \<mapsto> 0], burned = {1}, nchan = 1, closed = []\<rparr>,
     phases = (\<lambda>p. Unissued)(0 := Admitted, 1 := Cancelled, 2 := InLock (Park 0)),
     admitted = [0]\<rparr>"

definition demo_woken :: system where
  "demo_woken = \<lparr>mem = \<lparr>next_id = 3, cur = 2, waiters = Map.empty, burned = {}, nchan = 1, closed = [0]\<rparr>,
     phases = (\<lambda>p. Unissued)(0 := Released, 1 := Cancelled, 2 := InLock (Park 0)),
     admitted = [0]\<rparr>"


section \<open>Staying within the counter width\<close>

text \<open>
  Positions are \<open>uint64\<close> values and \<open>cur++\<close> wraps. The skip run that follows an \<open>Unlock\<close> or a
  \<open>ReturnTicket\<close> stays within the counter when some position ahead of \<open>cur\<close> remains that it
  does not step over: one that is not burned (for \<open>ReturnTicket tid\<close>: not \<open>tid\<close> either, which
  is burned by the call; a \<open>tid\<close> below \<open>cur\<close> starts no skip run at all). \<open>GetTicket\<close> and
  \<open>Lock\<close> do not touch \<open>cur\<close>.
\<close>

fun within_width :: "call \<Rightarrow> runtime \<Rightarrow> bool" where
  "within_width (CUnlock tid) m = (\<exists>q. cur m < q \<and> q \<notin> burned m)"
| "within_width (CReturnTicket tid) m =
     (tid < cur m \<or> (\<exists>q. cur m \<le> q \<and> q \<noteq> tid \<and> q \<notin> burned m))"
| "within_width c m = True"

section \<open>Runs that come to an end\<close>




section \<open>The skip loop\<close>

lemma loop_stop: "cur m \<notin> burned m \<Longrightarrow> advanceAndWakeNext_loop m = m"
  by (subst advanceAndWakeNext_loop.simps) simp

lemma loop_go: "cur m \<in> burned m \<Longrightarrow>
  advanceAndWakeNext_loop m = advanceAndWakeNext_loop (m\<lparr>burned := burned m - {cur m}, cur := cur m + 1\<rparr>)"
  by (subst advanceAndWakeNext_loop.simps) simp

lemma loop_frame:
  "next_id (advanceAndWakeNext_loop m) = next_id m
   \<and> waiters (advanceAndWakeNext_loop m) = waiters m
   \<and> nchan (advanceAndWakeNext_loop m) = nchan m
   \<and> closed (advanceAndWakeNext_loop m) = closed m"
proof (induction m rule: advanceAndWakeNext_loop.induct)
  case (1 m)
  show ?case
  proof (cases "cur m \<in> burned m")
    case True
    with 1 show ?thesis
      by (subst (1 2 3 4) advanceAndWakeNext_loop.simps) simp
  next
    case False
    then show ?thesis
      by (subst (1 2 3 4) advanceAndWakeNext_loop.simps) simp
  qed
qed

lemma loop_post: "cur (advanceAndWakeNext_loop m) \<notin> burned (advanceAndWakeNext_loop m)"
proof (induction m rule: advanceAndWakeNext_loop.induct)
  case (1 m)
  show ?case
  proof (cases "cur m \<in> burned m")
    case True
    with 1 show ?thesis
      by (subst (1 2) advanceAndWakeNext_loop.simps) simp
  next
    case False
    then show ?thesis
      by (subst (1 2) advanceAndWakeNext_loop.simps) simp
  qed
qed

lemma u64_of_nat_zero_iff: "(of_nat k :: u64) = 0 \<longleftrightarrow> 2 ^ 64 dvd k"
  by (simp add: word_of_nat_eq_0_iff)

lemma u64_of_nat_nonzero: "0 < k \<Longrightarrow> k < 2 ^ 64 \<Longrightarrow> (of_nat k :: u64) \<noteq> 0"
  by (auto simp: u64_of_nat_zero_iff dest: dvd_imp_le)

lemma run_Suc: "insert c {c + 1 + of_nat i | i. i < n} = {c + of_nat i | i. i < Suc n}" for c :: u64
proof (intro set_eqI iffI)
  fix x assume "x \<in> insert c {c + 1 + of_nat i | i. i < n}"
  then consider "x = c" | i where "i < n" "x = c + 1 + of_nat i" by auto
  then show "x \<in> {c + of_nat i | i. i < Suc n}"
  proof cases
    case 1
    then have "x = c + of_nat 0" by simp
    then show ?thesis by blast
  next
    case 2
    then have "x = c + of_nat (Suc i)" "Suc i < Suc n" by simp_all
    then show ?thesis by blast
  qed
next
  fix x assume "x \<in> {c + of_nat i | i. i < Suc n}"
  then obtain i where i: "i < Suc n" "x = c + of_nat i" by auto
  show "x \<in> insert c {c + 1 + of_nat i | i. i < n}"
  proof (cases i)
    case 0
    with i show ?thesis by simp
  next
    case (Suc j)
    with i have "j < n" "x = c + 1 + of_nat j" by simp_all
    then show ?thesis by blast
  qed
qed

lemma loop_run:
  "\<exists>n. n \<le> 2 ^ 64
     \<and> (\<forall>i<n. cur m + of_nat i \<in> burned m)
     \<and> (n < 2 ^ 64 \<longrightarrow> cur m + of_nat n \<notin> burned m)
     \<and> advanceAndWakeNext_loop m
         = m\<lparr>burned := burned m - {cur m + of_nat i | i. i < n}, cur := cur m + of_nat n\<rparr>"
proof (induction m rule: advanceAndWakeNext_loop.induct)
  case (1 m)
  show ?case
  proof (cases "cur m \<in> burned m")
    case False
    then have "advanceAndWakeNext_loop m
        = m\<lparr>burned := burned m - {cur m + of_nat i | i. i < (0::nat)}, cur := cur m + of_nat 0\<rparr>"
      by (simp add: loop_stop)
    with False show ?thesis
      by (intro exI [of _ 0]) simp
  next
    case True
    let ?m1 = "m\<lparr>burned := burned m - {cur m}, cur := cur m + 1\<rparr>"
    from 1 True obtain n where n: "n \<le> 2 ^ 64"
      and run: "\<forall>i<n. cur m + 1 + of_nat i \<in> burned m - {cur m}"
      and stop: "n < 2 ^ 64 \<longrightarrow> cur m + 1 + of_nat n \<notin> burned m - {cur m}"
      and res: "advanceAndWakeNext_loop ?m1
        = ?m1\<lparr>burned := burned ?m1 - {cur ?m1 + of_nat i | i. i < n}, cur := cur ?m1 + of_nat n\<rparr>"
      by auto
    have less: "n < 2 ^ 64"
    proof (rule ccontr)
      assume "\<not> n < 2 ^ 64"
      with n have "n = 2 ^ 64" by simp
      then have "(2 ^ 64 - 1 :: nat) < n" by simp
      then have "cur m + 1 + of_nat (2 ^ 64 - 1) \<in> burned m - {cur m}"
        using run by blast
      moreover have "cur m + 1 + of_nat (2 ^ 64 - 1) = cur m"
        by simp
      ultimately show False by simp
    qed
    have a: "Suc n \<le> 2 ^ 64" using less by simp
    have b: "\<forall>i<Suc n. cur m + of_nat i \<in> burned m"
    proof (intro allI impI)
      fix i assume "i < Suc n"
      show "cur m + of_nat i \<in> burned m"
      proof (cases i)
        case 0
        with True show ?thesis by simp
      next
        case (Suc j)
        with \<open>i < Suc n\<close> run have "cur m + 1 + of_nat j \<in> burned m - {cur m}" by simp
        with Suc show ?thesis by (simp add: add.assoc)
      qed
    qed
    have c: "Suc n < 2 ^ 64 \<longrightarrow> cur m + of_nat (Suc n) \<notin> burned m"
    proof
      assume s: "Suc n < 2 ^ 64"
      then have "(of_nat (Suc n) :: u64) \<noteq> 0"
        by (intro u64_of_nat_nonzero) simp_all
      then have "cur m + of_nat (Suc n) \<noteq> cur m" by simp
      moreover have "cur m + 1 + of_nat n \<notin> burned m - {cur m}"
        using stop less by simp
      ultimately show "cur m + of_nat (Suc n) \<notin> burned m"
        by (simp add: add.assoc)
    qed
    have "burned m - {cur m} - {cur m + 1 + of_nat i | i. i < n}
        = burned m - insert (cur m) {cur m + 1 + of_nat i | i. i < n}"
      by blast
    then have d: "burned m - {cur m} - {cur m + 1 + of_nat i | i. i < n}
        = burned m - {cur m + of_nat i | i. i < Suc n}"
      by (simp only: run_Suc)
    have "advanceAndWakeNext_loop m
        = m\<lparr>burned := burned m - {cur m + of_nat i | i. i < Suc n}, cur := cur m + of_nat (Suc n)\<rparr>"
      using res d by (simp add: loop_go [OF True] add.assoc)
    with a b c show ?thesis by blast
  qed
qed

lemma u64_less_Suc: "a < b \<Longrightarrow> a < a + 1" for a b :: u64
  by uint_arith

lemma u64_Suc_le: "a < b \<Longrightarrow> a + 1 \<le> b" for a b :: u64
  by (rule inc_le)

lemma u64_le_cases: "a < b \<Longrightarrow> a \<le> p \<Longrightarrow> p = a \<or> a + 1 \<le> p" for a b p :: u64
  by (metis inc_le order_le_less)

section \<open>Skip and wake\<close>

lemma advance_fields:
  assumes "waiters_open m"
  obtains n m' where "n \<le> 2 ^ 64"
    and "\<forall>i<n. cur m + of_nat i \<in> burned m"
    and "n < 2 ^ 64 \<longrightarrow> cur m + of_nat n \<notin> burned m"
    and "advanceAndWakeNext m = Inr m'"
    and "cur m' = cur m + of_nat n"
    and "burned m' = burned m - {cur m + of_nat i | i. i < n}"
    and "waiters m' = (waiters m)(cur m' := None)"
    and "closed m' = closed m @ (case waiters m (cur m') of None \<Rightarrow> [] | Some ch \<Rightarrow> [ch])"
    and "next_id m' = next_id m" and "nchan m' = nchan m"
proof -
  from loop_run [of m] obtain n where n: "n \<le> 2 ^ 64"
    and run: "\<forall>i<n. cur m + of_nat i \<in> burned m"
    and stop: "n < 2 ^ 64 \<longrightarrow> cur m + of_nat n \<notin> burned m"
    and res: "advanceAndWakeNext_loop m
        = m\<lparr>burned := burned m - {cur m + of_nat i | i. i < n}, cur := cur m + of_nat n\<rparr>"
    by blast
  show thesis
  proof (cases "waiters m (cur m + of_nat n)")
    case None
    then have "advanceAndWakeNext m = Inr
        (m\<lparr>burned := burned m - {cur m + of_nat i | i. i < n}, cur := cur m + of_nat n\<rparr>)"
      by (simp add: advanceAndWakeNext_def res)
    with n run stop None show thesis
      by (intro that [of n "m\<lparr>burned := burned m - {cur m + of_nat i | i. i < n}, cur := cur m + of_nat n\<rparr>"])
        (simp_all add: fun_upd_idem)
  next
    case (Some ch)
    with assms have "ch \<notin> set (closed m)"
      by (auto simp: waiters_open_def)
    with Some have "advanceAndWakeNext m = Inr
        (m\<lparr>burned := burned m - {cur m + of_nat i | i. i < n}, cur := cur m + of_nat n,
                waiters := (waiters m)(cur m + of_nat n := None),
                closed := closed m @ [ch]\<rparr>)"
      by (simp add: advanceAndWakeNext_def res close_chan_def)
    with n run stop Some show thesis
      by (intro that [of n "m\<lparr>burned := burned m - {cur m + of_nat i | i. i < n}, cur := cur m + of_nat n,
                waiters := (waiters m)(cur m + of_nat n := None),
                closed := closed m @ [ch]\<rparr>"]) simp_all
  qed
qed

lemma ReturnTicket_unfold:
  assumes "cur m \<le> p"
  shows "ReturnTicket m p
    = advanceAndWakeNext (m\<lparr>burned := insert p (burned m), waiters := (waiters m)(p := None)\<rparr>)"
proof -
  from assms have "\<not> p < cur m" by simp
  then show ?thesis
    by (cases "waiters m p") (simp_all add: ReturnTicket_def Let_def fun_upd_idem)
qed

text \<open>
  C2. In every state whose waiter channels are open (every reachable state is one, see
  \<open>reachable_chans_ok\<close> below), one call of \<open>advanceAndWakeNext\<close> returns normally, and its result is described by a number \<open>n\<close> of skipped positions: the \<open>n\<close>
  positions \<open>cur, cur + 1, ..., cur + n - 1\<close> were all burned, they are exactly the keys removed
  from \<open>burned\<close>, \<open>cur\<close> has been incremented \<open>n\<close> times, and the position it stops at is
  not burned (the first one that is not, counting modulo \<open>2^64\<close>). Then, if \<open>waiters\<close> holds a
  channel for the new \<open>cur\<close>, that one entry is removed and that one channel is closed,
  once; if it holds none, \<open>waiters\<close> and the closed channels are as before. Nothing else
  changes, so at most one entry is removed and at most one channel closed per call.
\<close>

theorem advanceAndWakeNext_skips_run_wakes_one:
  assumes "waiters_open m"
  shows "\<exists>n. n \<le> 2 ^ 64
     \<and> (\<forall>i<n. cur m + of_nat i \<in> burned m)
     \<and> (n < 2 ^ 64 \<longrightarrow> cur m + of_nat n \<notin> burned m)
     \<and> advanceAndWakeNext m = Inr
         (case waiters m (cur m + of_nat n) of
            None \<Rightarrow>
              m\<lparr>burned := burned m - {cur m + of_nat i | i. i < n}, cur := cur m + of_nat n\<rparr>
          | Some ch \<Rightarrow>
              m\<lparr>burned := burned m - {cur m + of_nat i | i. i < n}, cur := cur m + of_nat n,
                waiters := (waiters m)(cur m + of_nat n := None),
                closed := closed m @ [ch]\<rparr>)"
proof -
  from loop_run [of m] obtain n where n: "n \<le> 2 ^ 64"
    and run: "\<forall>i<n. cur m + of_nat i \<in> burned m"
    and stop: "n < 2 ^ 64 \<longrightarrow> cur m + of_nat n \<notin> burned m"
    and res: "advanceAndWakeNext_loop m
        = m\<lparr>burned := burned m - {cur m + of_nat i | i. i < n}, cur := cur m + of_nat n\<rparr>"
    by blast
  have "advanceAndWakeNext m = Inr
         (case waiters m (cur m + of_nat n) of
            None \<Rightarrow>
              m\<lparr>burned := burned m - {cur m + of_nat i | i. i < n}, cur := cur m + of_nat n\<rparr>
          | Some ch \<Rightarrow>
              m\<lparr>burned := burned m - {cur m + of_nat i | i. i < n}, cur := cur m + of_nat n,
                waiters := (waiters m)(cur m + of_nat n := None),
                closed := closed m @ [ch]\<rparr>)"
  proof (cases "waiters m (cur m + of_nat n)")
    case None
    then show ?thesis
      by (simp add: advanceAndWakeNext_def res)
  next
    case (Some ch)
    with assms have "ch \<notin> set (closed m)"
      by (auto simp: waiters_open_def)
    with Some show ?thesis
      by (simp add: advanceAndWakeNext_def res close_chan_def)
  qed
  with n run stop show ?thesis by blast
qed

theorem advanceAndWakeNext_skips_run_wakes_one_witness:
  "waiters_open skip_state
   \<and> (\<exists>n. n \<le> 2 ^ 64
     \<and> (\<forall>i<n. cur skip_state + of_nat i \<in> burned skip_state)
     \<and> (n < 2 ^ 64 \<longrightarrow> cur skip_state + of_nat n \<notin> burned skip_state)
     \<and> advanceAndWakeNext skip_state = Inr
         (case waiters skip_state (cur skip_state + of_nat n) of
            None \<Rightarrow>
              skip_state\<lparr>burned := burned skip_state - {cur skip_state + of_nat i | i. i < n},
                cur := cur skip_state + of_nat n\<rparr>
          | Some ch \<Rightarrow>
              skip_state\<lparr>burned := burned skip_state - {cur skip_state + of_nat i | i. i < n},
                cur := cur skip_state + of_nat n,
                waiters := (waiters skip_state)(cur skip_state + of_nat n := None),
                closed := closed skip_state @ [ch]\<rparr>))
   \<and> advanceAndWakeNext skip_state
       = Inr \<lparr>next_id = 6, cur = 3, waiters = [5 \<mapsto> 1], burned = {4}, nchan = 2, closed = [0]\<rparr>"
proof -
  have h: "waiters_open skip_state"
    by (simp add: waiters_open_def skip_state_def busy_state_def)
  have e: "advanceAndWakeNext skip_state
       = Inr \<lparr>next_id = 6, cur = 3, waiters = [5 \<mapsto> 1], burned = {4}, nchan = 2, closed = [0]\<rparr>"
    by (simp add: advanceAndWakeNext_def close_chan_def skip_state_def busy_state_def
        loop_go loop_stop)
  from h advanceAndWakeNext_skips_run_wakes_one [OF h] e show ?thesis
    by (intro conjI)
qed

section \<open>Unlock\<close>

text \<open>
  C3. \<open>Unlock\<close> called with a position other than \<open>cur\<close> panics, whatever the state (it
  never returns a state); called with \<open>cur\<close> it is \<open>cur++\<close> followed by
  \<open>advanceAndWakeNext\<close>. Where the waiter channels are open, as they are in every reachable
  state, \<open>Unlock\<close> returns normally exactly when it is called with \<open>cur\<close>.
\<close>

theorem Unlock_checks_holder:
  "(tid \<noteq> cur m \<longrightarrow> Unlock m tid = Inl UnlockNotHolder)
   \<and> (tid = cur m \<longrightarrow> Unlock m tid = advanceAndWakeNext (m\<lparr>cur := cur m + 1\<rparr>))
   \<and> (waiters_open m \<longrightarrow> (\<exists>m'. Unlock m tid = Inr m') = (tid = cur m))"
proof -
  have "(\<exists>m'. Unlock m tid = Inr m') = (tid = cur m)" if op: "waiters_open m"
  proof (cases "tid = cur m")
    case True
    from op have "waiters_open (m\<lparr>cur := cur m + 1\<rparr>)"
      by (simp add: waiters_open_def)
    then have "\<exists>m'. advanceAndWakeNext (m\<lparr>cur := cur m + 1\<rparr>) = Inr m'"
      by (rule advance_fields) blast
    with True show ?thesis
      by (simp add: Unlock_def)
  next
    case False
    then show ?thesis
      by (simp add: Unlock_def)
  qed
  then show ?thesis
    by (simp add: Unlock_def)
qed

theorem Unlock_checks_holder_witness:
  "(3 :: u64) \<noteq> cur busy_state
   \<and> Unlock busy_state 3 = Inl UnlockNotHolder
   \<and> (1 :: u64) = cur busy_state
   \<and> Unlock busy_state 1 = advanceAndWakeNext (busy_state\<lparr>cur := cur busy_state + 1\<rparr>)
   \<and> Unlock busy_state 1
       = Inr \<lparr>next_id = 6, cur = 3, waiters = [5 \<mapsto> 1], burned = {4}, nchan = 2, closed = [0]\<rparr>"
proof -
  have a: "(3 :: u64) \<noteq> cur busy_state" and b: "(1 :: u64) = cur busy_state"
    by (simp_all add: busy_state_def)
  have e: "Unlock busy_state 1
       = Inr \<lparr>next_id = 6, cur = 3, waiters = [5 \<mapsto> 1], burned = {4}, nchan = 2, closed = [0]\<rparr>"
    by (simp add: Unlock_def advanceAndWakeNext_def close_chan_def busy_state_def
        loop_go loop_stop)
  from a b e Unlock_checks_holder [of 3 busy_state] Unlock_checks_holder [of 1 busy_state]
  show ?thesis
    by simp
qed

section \<open>Cancelling a pending position\<close>



section \<open>Cancelling a resolved position\<close>

text \<open>
  C5. For every position \<open>p < cur\<close>, \<open>ReturnTicket p\<close> returns normally (no panic) and leaves
  every component of the state as it was (\<open>cur\<close>, \<open>next\<close>, \<open>waiters\<close>, \<open>burned\<close>, and also the
  channels); calling it again gives the same state again.
\<close>

theorem ReturnTicket_resolved_noop:
  assumes "p < cur m"
  shows "ReturnTicket m p = Inr m
    \<and> (case ReturnTicket m p of Inl e \<Rightarrow> Inl e | Inr m' \<Rightarrow> ReturnTicket m' p) = Inr m"
  using assms by (simp add: ReturnTicket_def)

theorem ReturnTicket_resolved_noop_witness:
  "(3 :: u64) < cur (New\<lparr>cur := 5, next_id := 7\<rparr>)
   \<and> ReturnTicket (New\<lparr>cur := 5, next_id := 7\<rparr>) 3 = Inr (New\<lparr>cur := 5, next_id := 7\<rparr>)"
proof -
  have h: "(3 :: u64) < cur (New\<lparr>cur := 5, next_id := 7\<rparr>)"
    by (simp add: New_def)
  show ?thesis
    using h ReturnTicket_resolved_noop [OF h] by simp
qed

section \<open>The channel bookkeeping is an invariant\<close>

lemma chans_ok_New: "chans_ok New"
  by (simp add: chans_ok_def waiters_open_def waiters_distinct_def chans_allocated_def New_def)

lemma chans_ok_cur_burned [simp]:
  "chans_ok (m\<lparr>cur := c\<rparr>) = chans_ok m"
  "chans_ok (m\<lparr>burned := b\<rparr>) = chans_ok m"
  "chans_ok (m\<lparr>next_id := n\<rparr>) = chans_ok m"
  by (simp_all add: chans_ok_def waiters_open_def waiters_distinct_def chans_allocated_def)

lemma chans_ok_cong:
  "waiters m' = waiters m \<Longrightarrow> closed m' = closed m \<Longrightarrow> nchan m' = nchan m
    \<Longrightarrow> chans_ok m' = chans_ok m"
  by (simp add: chans_ok_def waiters_open_def waiters_distinct_def chans_allocated_def)

lemma chans_ok_delete:
  assumes "chans_ok m"
  shows "chans_ok (m\<lparr>waiters := (waiters m)(p := None)\<rparr>)"
proof -
  let ?m = "m\<lparr>waiters := (waiters m)(p := None)\<rparr>"
  have sub: "waiters m q = Some ch" if "waiters ?m q = Some ch" for q ch
    using that by (simp split: if_splits)
  from assms have al: "\<forall>p ch. waiters m p = Some ch \<longrightarrow> ch < nchan m"
    and cl: "\<forall>ch\<in>set (closed m). ch < nchan m"
    and op: "\<forall>p ch. waiters m p = Some ch \<longrightarrow> ch \<notin> set (closed m)"
    and di: "\<forall>p q ch. waiters m p = Some ch \<and> waiters m q = Some ch \<longrightarrow> p = q"
    by (auto simp: chans_ok_def waiters_open_def waiters_distinct_def chans_allocated_def)
  have "waiters_open ?m"
    unfolding waiters_open_def
  proof (intro allI impI)
    fix q ch assume "waiters ?m q = Some ch"
    then have "waiters m q = Some ch" by (rule sub)
    with op show "ch \<notin> set (closed ?m)" by simp
  qed
  moreover have "waiters_distinct ?m"
    unfolding waiters_distinct_def
  proof (intro allI impI)
    fix q q' ch assume "waiters ?m q = Some ch \<and> waiters ?m q' = Some ch"
    then have "waiters m q = Some ch \<and> waiters m q' = Some ch" using sub by blast
    with di show "q = q'" by blast
  qed
  moreover have "chans_allocated ?m"
    unfolding chans_allocated_def
  proof (intro conjI allI impI ballI)
    fix q ch assume "waiters ?m q = Some ch"
    then have "waiters m q = Some ch" by (rule sub)
    with al show "ch < nchan ?m" by simp
  next
    fix ch assume "ch \<in> set (closed ?m)"
    with cl show "ch < nchan ?m" by simp
  qed
  ultimately show ?thesis
    by (simp add: chans_ok_def)
qed

lemma chans_ok_Lock_enter:
  assumes "chans_ok m"
  shows "chans_ok (snd (Lock_enter m tid))"
proof (cases "tid = cur m \<or> waiters m tid \<noteq> None")
  case True
  then have "snd (Lock_enter m tid) = m"
    by (auto simp: Lock_enter_def)
  with assms show ?thesis
    by simp
next
  case False
  then have r: "snd (Lock_enter m tid)
      = m\<lparr>waiters := (waiters m)(tid \<mapsto> nchan m), nchan := nchan m + 1\<rparr>"
    by (auto simp: Lock_enter_def Let_def)
  from assms have al: "\<forall>p ch. waiters m p = Some ch \<longrightarrow> ch < nchan m"
    and cl: "\<forall>ch\<in>set (closed m). ch < nchan m"
    and op: "\<forall>p ch. waiters m p = Some ch \<longrightarrow> ch \<notin> set (closed m)"
    and di: "\<forall>p q ch. waiters m p = Some ch \<and> waiters m q = Some ch \<longrightarrow> p = q"
    by (auto simp: chans_ok_def waiters_open_def waiters_distinct_def chans_allocated_def)
  have fresh: "waiters m p \<noteq> Some (nchan m)" for p
    using al [rule_format, of p "nchan m"] by auto
  have "waiters_open (snd (Lock_enter m tid))"
    unfolding r waiters_open_def
  proof (intro allI impI)
    fix p ch
    assume a: "waiters (m\<lparr>waiters := (waiters m)(tid \<mapsto> nchan m), nchan := nchan m + 1\<rparr>) p = Some ch"
    show "ch \<notin> set (closed (m\<lparr>waiters := (waiters m)(tid \<mapsto> nchan m), nchan := nchan m + 1\<rparr>))"
    proof (cases "p = tid")
      case True
      with a have "ch = nchan m" by simp
      with cl show ?thesis by auto
    next
      case False
      with a have "waiters m p = Some ch" by simp
      with op show ?thesis by simp
    qed
  qed
  moreover have "waiters_distinct (snd (Lock_enter m tid))"
    unfolding r waiters_distinct_def
  proof (intro allI impI)
    fix p q ch
    assume a: "waiters (m\<lparr>waiters := (waiters m)(tid \<mapsto> nchan m), nchan := nchan m + 1\<rparr>) p = Some ch
      \<and> waiters (m\<lparr>waiters := (waiters m)(tid \<mapsto> nchan m), nchan := nchan m + 1\<rparr>) q = Some ch"
    show "p = q"
    proof (cases "p = tid")
      case True
      with a have "ch = nchan m" by simp
      with a fresh [of q] have "q = tid" by (simp split: if_splits)
      with True show ?thesis by simp
    next
      case False
      with a have p: "waiters m p = Some ch" by simp
      with fresh [of p] have "ch \<noteq> nchan m" by auto
      with a have "waiters m q = Some ch" by (simp split: if_splits)
      with p di show ?thesis by blast
    qed
  qed
  moreover have "chans_allocated (snd (Lock_enter m tid))"
    unfolding r chans_allocated_def
  proof (intro conjI allI impI ballI)
    fix p ch
    assume a: "waiters (m\<lparr>waiters := (waiters m)(tid \<mapsto> nchan m), nchan := nchan m + 1\<rparr>) p = Some ch"
    then have "ch = nchan m \<or> waiters m p = Some ch" by (simp split: if_splits)
    then show "ch < nchan (m\<lparr>waiters := (waiters m)(tid \<mapsto> nchan m), nchan := nchan m + 1\<rparr>)"
      using al by (auto simp: less_Suc_eq)
  next
    fix ch
    assume "ch \<in> set (closed (m\<lparr>waiters := (waiters m)(tid \<mapsto> nchan m), nchan := nchan m + 1\<rparr>))"
    then show "ch < nchan (m\<lparr>waiters := (waiters m)(tid \<mapsto> nchan m), nchan := nchan m + 1\<rparr>)"
      using cl by (auto simp: less_Suc_eq)
  qed
  ultimately show ?thesis
    by (simp add: chans_ok_def)
qed

lemma chans_ok_advance:
  assumes ok: "chans_ok m" and r: "advanceAndWakeNext m = Inr m'"
  shows "chans_ok m'"
proof -
  from ok have op: "waiters_open m"
    by (simp add: chans_ok_def)
  show ?thesis
  proof (rule advance_fields [OF op])
    fix n m''
    assume r': "advanceAndWakeNext m = Inr m''"
      and wa0: "waiters m'' = (waiters m)(cur m'' := None)"
      and cl0: "closed m'' = closed m @ (case waiters m (cur m'') of None \<Rightarrow> [] | Some ch \<Rightarrow> [ch])"
      and nc0: "nchan m'' = nchan m"
    from r r' have e: "m'' = m'" by simp
    note wa = wa0 [unfolded e] and cl = cl0 [unfolded e] and nc = nc0 [unfolded e]
    from ok have al: "\<forall>p ch. waiters m p = Some ch \<longrightarrow> ch < nchan m"
      and clo: "\<forall>ch\<in>set (closed m). ch < nchan m"
      and ope: "\<forall>p ch. waiters m p = Some ch \<longrightarrow> ch \<notin> set (closed m)"
      and di: "\<forall>p q ch. waiters m p = Some ch \<and> waiters m q = Some ch \<longrightarrow> p = q"
      by (auto simp: chans_ok_def waiters_open_def waiters_distinct_def chans_allocated_def)
    have sub: "waiters m p = Some ch \<and> p \<noteq> cur m'" if "waiters m' p = Some ch" for p ch
      using that wa by (simp split: if_splits)
    have "waiters_open m'"
      unfolding waiters_open_def
    proof (intro allI impI)
      fix p ch assume "waiters m' p = Some ch"
      then have p: "waiters m p = Some ch" "p \<noteq> cur m'" using sub by blast+
      then have a: "ch \<notin> set (closed m)" using ope by blast
      have "waiters m (cur m') \<noteq> Some ch"
        using p di by blast
      with a show "ch \<notin> set (closed m')"
        by (cases "waiters m (cur m')") (simp_all add: cl)
    qed
    moreover have "waiters_distinct m'"
      unfolding waiters_distinct_def
    proof (intro allI impI)
      fix p q ch assume "waiters m' p = Some ch \<and> waiters m' q = Some ch"
      then have "waiters m p = Some ch \<and> waiters m q = Some ch" using sub by blast
      then show "p = q" using di by blast
    qed
    moreover have "chans_allocated m'"
      unfolding chans_allocated_def
    proof (intro conjI allI impI ballI)
      fix p ch assume "waiters m' p = Some ch"
      then have "waiters m p = Some ch" using sub by blast
      then show "ch < nchan m'" using al nc by simp
    next
      fix ch assume "ch \<in> set (closed m')"
      then have "ch \<in> set (closed m) \<or> waiters m (cur m') = Some ch"
        by (cases "waiters m (cur m')") (auto simp: cl)
      then show "ch < nchan m'"
        using al clo nc by auto
    qed
    ultimately show ?thesis
      by (simp add: chans_ok_def)
  qed
qed

lemma chans_ok_run_call:
  assumes "chans_ok m" and "run_call c m = Inr m'"
  shows "chans_ok m'"
proof (cases c)
  case CGetTicket
  with assms(2) have "m\<lparr>next_id := next_id m + 1\<rparr> = m'"
    by (simp add: GetTicket_def Let_def)
  with assms(1) show ?thesis
    by auto
next
  case (CLock tid)
  with assms(2) have "snd (Lock_enter m tid) = m'"
    by simp
  with chans_ok_Lock_enter [OF assms(1), of tid] show ?thesis
    by simp
next
  case (CUnlock tid)
  with assms(2) have u: "Unlock m tid = Inr m'"
    by simp
  then have "tid = cur m"
    by (simp add: Unlock_def split: if_splits)
  with u have adv: "advanceAndWakeNext (m\<lparr>cur := cur m + 1\<rparr>) = Inr m'"
    by (simp add: Unlock_def)
  from assms(1) have "chans_ok (m\<lparr>cur := cur m + 1\<rparr>)"
    by simp
  then show ?thesis
    using adv by (rule chans_ok_advance)
next
  case (CReturnTicket tid)
  with assms(2) have rt: "ReturnTicket m tid = Inr m'"
    by simp
  show ?thesis
  proof (cases "tid < cur m")
    case True
    with rt have "m = m'"
      by (simp add: ReturnTicket_def)
    with assms(1) show ?thesis
      by simp
  next
    case False
    then have le: "cur m \<le> tid" by simp
    have adv: "advanceAndWakeNext (m\<lparr>burned := insert tid (burned m),
        waiters := (waiters m)(tid := None)\<rparr>) = Inr m'"
      unfolding ReturnTicket_unfold [OF le, symmetric] by (rule rt)
    have "chans_ok (m\<lparr>burned := insert tid (burned m),
        waiters := (waiters m)(tid := None)\<rparr>)"
      using chans_ok_delete [OF assms(1), of tid]
      by (subst chans_ok_cong [of _ "m\<lparr>waiters := (waiters m)(tid := None)\<rparr>"]) simp_all
    then show ?thesis
      using adv by (rule chans_ok_advance)
  qed
qed

lemma reachable_chans_ok: "reachable m \<Longrightarrow> chans_ok m"
proof (induction rule: reachable.induct)
  case reachable_New
  show ?case by (rule chans_ok_New)
next
  case (reachable_call m c m')
  from reachable_call.IH reachable_call.hyps(2) show ?case
    by (rule chans_ok_run_call)
qed

section \<open>What a call leaves alone\<close>

lemma advance_Inr:
  assumes "advanceAndWakeNext m = Inr m'"
  shows "cur m' = cur (advanceAndWakeNext_loop m)"
    and "burned m' = burned (advanceAndWakeNext_loop m)"
    and "waiters m' = (waiters m)(cur m' := None)"
    and "next_id m' = next_id m"
    and "nchan m' = nchan m"
    and "closed m' = closed m @ (case waiters m (cur m') of None \<Rightarrow> [] | Some ch \<Rightarrow> [ch])"
proof -
  let ?l = "advanceAndWakeNext_loop m"
  have fr: "waiters ?l = waiters m" "next_id ?l = next_id m" "nchan ?l = nchan m"
    "closed ?l = closed m"
    using loop_frame [of m] by simp_all
  show "cur m' = cur ?l" "burned m' = burned ?l" "next_id m' = next_id m" "nchan m' = nchan m"
    using assms fr
    by (auto simp: advanceAndWakeNext_def Let_def close_chan_def split: option.splits if_splits)
  then show "waiters m' = (waiters m)(cur m' := None)"
    "closed m' = closed m @ (case waiters m (cur m') of None \<Rightarrow> [] | Some ch \<Rightarrow> [ch])"
    using assms fr
    by (auto simp: advanceAndWakeNext_def Let_def close_chan_def fun_upd_idem
        split: option.splits if_splits)
qed

lemma u64_not_last: "a \<noteq> - 1 \<Longrightarrow> a < - 1" for a :: u64
  by (simp add: word_order.not_eq_extremum)

lemma Lock_enter_cur: "cur (snd (Lock_enter m tid)) = cur m"
  by (simp add: Lock_enter_def Let_def split: option.splits)

section \<open>Issuing positions\<close>

lemma GetTicket_eq: "GetTicket m = (next_id m, m\<lparr>next_id := next_id m + 1\<rparr>)"
  by (simp add: GetTicket_def Let_def)

lemma next_id_frame:
  assumes "run_call c m = Inr m'" and "c \<noteq> CGetTicket"
  shows "next_id m' = next_id m"
proof (cases c)
  case CGetTicket
  with assms show ?thesis by simp
next
  case (CLock tid)
  with assms have "snd (Lock_enter m tid) = m'" by simp
  moreover have "next_id (snd (Lock_enter m tid)) = next_id m"
    by (simp add: Lock_enter_def Let_def split: option.splits)
  ultimately show ?thesis by simp
next
  case (CUnlock tid)
  with assms have u: "Unlock m tid = Inr m'" by simp
  then have "tid = cur m" by (simp add: Unlock_def split: if_splits)
  with u have "advanceAndWakeNext (m\<lparr>cur := cur m + 1\<rparr>) = Inr m'"
    by (simp add: Unlock_def)
  from advance_Inr(4) [OF this] show ?thesis by simp
next
  case (CReturnTicket tid)
  with assms have rt: "ReturnTicket m tid = Inr m'" by simp
  show ?thesis
  proof (cases "tid < cur m")
    case True
    with rt have "m = m'" by (simp add: ReturnTicket_def)
    then show ?thesis by simp
  next
    case False
    then have le: "cur m \<le> tid" by simp
    have "advanceAndWakeNext (m\<lparr>burned := insert tid (burned m),
        waiters := (waiters m)(tid := None)\<rparr>) = Inr m'"
      unfolding ReturnTicket_unfold [OF le, symmetric] by (rule rt)
    from advance_Inr(4) [OF this] show ?thesis by simp
  qed
qed

lemma seq_Cons: "c # map (\<lambda>i. c + 1 + of_nat i) [0..<l] = map (\<lambda>i. c + of_nat i) [0..<Suc l]"
  for c :: u64
proof -
  have "[0..<Suc l] = 0 # map Suc [0..<l]"
    by (simp add: upt_conv_Cons map_Suc_upt del: upt_Suc)
  then show ?thesis
    by (simp add: comp_def add.assoc del: upt_Suc)
qed

lemma issued_by_seq:
  "issued_by cs m = map (\<lambda>i. next_id m + of_nat i) [0..<length (issued_by cs m)]"
proof (induction cs arbitrary: m)
  case Nil
  show ?case by simp
next
  case (Cons c cs)
  show ?case
  proof (cases "c = CGetTicket")
    case True
    let ?m' = "m\<lparr>next_id := next_id m + 1\<rparr>"
    have e: "issued_by (c # cs) m = next_id m # issued_by cs ?m'"
      using True by (simp add: GetTicket_eq)
    have "issued_by cs ?m' = map (\<lambda>i. next_id m + 1 + of_nat i) [0..<length (issued_by cs ?m')]"
      using Cons.IH [of ?m'] by simp
    then have "issued_by (c # cs) m
        = next_id m # map (\<lambda>i. next_id m + 1 + of_nat i) [0..<length (issued_by cs ?m')]"
      using e by simp
    also have "\<dots> = map (\<lambda>i. next_id m + of_nat i) [0..<Suc (length (issued_by cs ?m'))]"
      by (rule seq_Cons)
    also have "Suc (length (issued_by cs ?m')) = length (issued_by (c # cs) m)"
      using e by simp
    finally show ?thesis .
  next
    case False
    show ?thesis
    proof (cases "run_call c m")
      case (Inl e)
      with False have "issued_by (c # cs) m = []"
        by (cases c) simp_all
      then show ?thesis by simp
    next
      case (Inr m')
      with False have e: "issued_by (c # cs) m = issued_by cs m'"
        by (cases c) simp_all
      from next_id_frame [OF Inr False] Cons.IH [of m'] show ?thesis
        unfolding e by simp
    qed
  qed
qed

lemma u64_unat_of_nat: "k < 2 ^ 64 \<Longrightarrow> unat (of_nat k :: u64) = k"
  by (simp add: unat_of_nat take_bit_nat_eq_self)

lemma u64_of_nat_inj: "i < 2 ^ 64 \<Longrightarrow> j < 2 ^ 64 \<Longrightarrow> (of_nat i :: u64) = of_nat j \<Longrightarrow> i = j"
  by (metis u64_unat_of_nat)

lemma issued_by_New:
  "issued_by cs New = map of_nat [0..<length (issued_by cs New)]"
  using issued_by_seq [of cs New] by (simp add: New_def)

lemma issued_by_distinct:
  assumes "length (issued_by cs New) \<le> 2 ^ 64"
  shows "distinct (issued_by cs New)"
    and "map unat (issued_by cs New) = [0..<length (issued_by cs New)]"
proof -
  let ?l = "length (issued_by cs New)"
  have "inj_on (of_nat :: nat \<Rightarrow> u64) (set [0..<?l])"
    using assms by (intro inj_onI u64_of_nat_inj) auto
  then have "distinct (map (of_nat :: nat \<Rightarrow> u64) [0..<?l])"
    by (simp add: distinct_map)
  then show "distinct (issued_by cs New)"
    using issued_by_New [of cs] by simp
  have "map unat (map (of_nat :: nat \<Rightarrow> u64) [0..<?l]) = map (\<lambda>i. i) [0..<?l]"
    unfolding map_map using assms by (intro map_cong refl) (simp add: u64_unat_of_nat)
  then show "map unat (issued_by cs New) = [0..<?l]"
    using issued_by_New [of cs] by simp
qed

lemma issued_by_replicate:
  "issued_by (replicate k CGetTicket) m = map (\<lambda>i. next_id m + of_nat i) [0..<k]"
proof -
  have "length (issued_by (replicate k CGetTicket) m) = k" for m
    by (induction k arbitrary: m) simp_all
  with issued_by_seq [of "replicate k CGetTicket" m] show ?thesis by simp
qed

text \<open>
  C9. \<open>GetTicket\<close> returns the old value of \<open>next\<close> and adds one to it; on a fresh instance
  the first call returns 0. Whatever other calls come in between, the tickets returned by the
  \<open>GetTicket\<close> calls of a run from \<open>New\<close> are \<open>0, 1, 2, ...\<close> in order: within the counter
  width (no more than \<open>2^64\<close> tickets issued) they are the numbers \<open>0, 1, 2, ...\<close> themselves,
  each one greater than the one before, and no two are equal. No call other than \<open>GetTicket\<close>
  changes \<open>next\<close>.
\<close>

theorem GetTicket_issues_in_order:
  "fst (GetTicket New) = 0
   \<and> GetTicket m = (next_id m, m\<lparr>next_id := next_id m + 1\<rparr>)
   \<and> issued_by cs New = map of_nat [0..<length (issued_by cs New)]
   \<and> (length (issued_by cs New) \<le> 2 ^ 64 \<longrightarrow>
        distinct (issued_by cs New)
        \<and> map unat (issued_by cs New) = [0..<length (issued_by cs New)])
   \<and> (c \<noteq> CGetTicket \<and> run_call c m1 = Inr m2 \<longrightarrow> next_id m2 = next_id m1)"
proof -
  have "fst (GetTicket New) = 0"
    by (simp add: GetTicket_eq New_def)
  moreover have "c \<noteq> CGetTicket \<and> run_call c m1 = Inr m2 \<longrightarrow> next_id m2 = next_id m1"
    using next_id_frame [of c m1 m2] by blast
  ultimately show ?thesis
    using GetTicket_eq [of m] issued_by_New [of cs] issued_by_distinct [of cs] by blast
qed

theorem GetTicket_issues_in_order_witness:
  "issued_by [CGetTicket, CLock 0, CGetTicket, CUnlock 0, CReturnTicket 0, CGetTicket] New = [0, 1, 2]
   \<and> length (issued_by [CGetTicket, CLock 0, CGetTicket, CUnlock 0, CReturnTicket 0, CGetTicket] New)
       \<le> 2 ^ 64
   \<and> distinct (issued_by [CGetTicket, CLock 0, CGetTicket, CUnlock 0, CReturnTicket 0, CGetTicket] New)
   \<and> CReturnTicket 1 \<noteq> CGetTicket
   \<and> run_call (CReturnTicket 1) busy_state
       = Inr \<lparr>next_id = 6, cur = 3, waiters = [5 \<mapsto> 1], burned = {4}, nchan = 2, closed = [0]\<rparr>
   \<and> next_id \<lparr>next_id = 6, cur = 3, waiters = [5 \<mapsto> 1], burned = {4}, nchan = 2, closed = [0]\<rparr>
       = next_id busy_state"
proof -
  let ?cs = "[CGetTicket, CLock 0, CGetTicket, CUnlock 0, CReturnTicket 0, CGetTicket]"
  let ?m2 = "\<lparr>next_id = 6, cur = 3, waiters = [5 \<mapsto> 1], burned = {4}, nchan = 2, closed = [0]\<rparr>"
  have e: "issued_by ?cs New = [0, 1, 2]"
    by (simp add: GetTicket_eq New_def Lock_enter_def Unlock_def ReturnTicket_def
        advanceAndWakeNext_def loop_stop)
  then have l: "length (issued_by ?cs New) \<le> 2 ^ 64"
    by simp
  have c: "CReturnTicket 1 \<noteq> CGetTicket"
    by simp
  have r: "run_call (CReturnTicket 1) busy_state = Inr ?m2"
    by (simp add: ReturnTicket_def advanceAndWakeNext_def close_chan_def busy_state_def
        loop_go loop_stop)
  note t = GetTicket_issues_in_order [of New ?cs "CReturnTicket 1" busy_state ?m2]
  from t l have "distinct (issued_by ?cs New)"
    by blast
  moreover from t c r have "next_id ?m2 = next_id busy_state"
    by blast
  ultimately show ?thesis
    using e l c r by (intro conjI)
qed

section \<open>The invariant of contract-keeping runs\<close>

lemma u64_Suc_le_iff: "c < n \<Longrightarrow> c + 1 \<le> p \<longleftrightarrow> c < p" for c n p :: u64
  by uint_arith

lemma u64_less_Suc_iff: "c < n \<Longrightarrow> p < c + 1 \<longleftrightarrow> p \<le> c" for c n p :: u64
  by uint_arith

lemma below_Suc: "c < n \<Longrightarrow> below (c + 1) = below c @ [c]" for c n :: u64
proof -
  assume "c < n"
  then have "c + 1 \<noteq> 0" by uint_arith
  then have "unat (c + 1) = Suc (unat c)"
    by (simp add: unatSuc add.commute)
  then show ?thesis
    by (simp add: below_def)
qed

lemma pre_invI:
  assumes "chans_ok m" and "cur m \<le> next_id m"
    and "\<forall>p. ph p = Unissued \<longleftrightarrow> next_id m \<le> p"
    and "\<forall>p. p < cur m \<longrightarrow> ph p = Released \<or> ph p = Cancelled"
    and "\<forall>p. ph p = Released \<longrightarrow> p < cur m"
    and "\<forall>p. ph p = Admitted \<or> ph p = InLock Enter \<longrightarrow> p = cur m \<and> cur m \<notin> burned m"
    and "\<forall>p ch. ph p = InLock (Park ch) \<longrightarrow>
            waiters m p = Some ch \<or> (p = cur m \<and> cur m \<notin> burned m \<and> ch \<in> set (closed m))"
    and "\<forall>p. p \<in> burned m \<longleftrightarrow> cur m \<le> p \<and> ph p = Cancelled"
    and "\<forall>p ch. waiters m p = Some ch \<longrightarrow> ph p = InLock (Park ch)"
    and "adm = filter (\<lambda>p. ph p = Released) (below (cur m))
              @ (if ph (cur m) = Admitted then [cur m] else [])"
  shows "pre_inv m ph adm"
  unfolding pre_inv_def using assms by (intro conjI)

lemma pre_invD:
  assumes "pre_inv m ph adm"
  shows "chans_ok m" and "cur m \<le> next_id m"
    and "\<forall>p. ph p = Unissued \<longleftrightarrow> next_id m \<le> p"
    and "\<forall>p. p < cur m \<longrightarrow> ph p = Released \<or> ph p = Cancelled"
    and "\<forall>p. ph p = Released \<longrightarrow> p < cur m"
    and "\<forall>p. ph p = Admitted \<or> ph p = InLock Enter \<longrightarrow> p = cur m \<and> cur m \<notin> burned m"
    and "\<forall>p ch. ph p = InLock (Park ch) \<longrightarrow>
            waiters m p = Some ch \<or> (p = cur m \<and> cur m \<notin> burned m \<and> ch \<in> set (closed m))"
    and "\<forall>p. p \<in> burned m \<longleftrightarrow> cur m \<le> p \<and> ph p = Cancelled"
    and "\<forall>p ch. waiters m p = Some ch \<longrightarrow> ph p = InLock (Park ch)"
    and "adm = filter (\<lambda>p. ph p = Released) (below (cur m))
              @ (if ph (cur m) = Admitted then [cur m] else [])"
  using assms unfolding pre_inv_def by blast+

lemma pre_inv_loop_step:
  assumes inv: "pre_inv m ph adm" and b: "cur m \<in> burned m"
  shows "pre_inv (m\<lparr>burned := burned m - {cur m}, cur := cur m + 1\<rparr>) ph adm"
proof -
  let ?c = "cur m" and ?n = "next_id m"
  let ?m' = "m\<lparr>burned := burned m - {cur m}, cur := cur m + 1\<rparr>"
  note ok = pre_invD(1) [OF inv] and cn = pre_invD(2) [OF inv] and un = pre_invD(3) [OF inv]
    and lo = pre_invD(4) [OF inv] and re = pre_invD(5) [OF inv] and ad = pre_invD(6) [OF inv]
    and pa = pre_invD(7) [OF inv] and bu = pre_invD(8) [OF inv] and wa = pre_invD(9) [OF inv]
    and tr = pre_invD(10) [OF inv]
  from b bu have phc: "ph ?c = Cancelled" by blast
  have "\<not> ?n \<le> ?c"
  proof
    assume "?n \<le> ?c"
    with un have "ph ?c = Unissued" by blast
    with phc show False by simp
  qed
  then have lt: "?c < ?n" by simp
  note s1 = u64_less_Suc [OF lt] and s2 = u64_Suc_le [OF lt]
    and s3 = u64_Suc_le_iff [OF lt] and s4 = u64_less_Suc_iff [OF lt]
  have 1: "chans_ok ?m'"
    using ok by (subst chans_ok_cong [of _ m]) simp_all
  have 2: "cur ?m' \<le> next_id ?m'" using s2 by simp
  have 3: "\<forall>p. ph p = Unissued \<longleftrightarrow> next_id ?m' \<le> p" using un by simp
  have 4: "\<forall>p. p < cur ?m' \<longrightarrow> ph p = Released \<or> ph p = Cancelled"
  proof (intro allI impI)
    fix p assume "p < cur ?m'"
    then have "p \<le> ?c" by (simp add: s4)
    then have "p < ?c \<or> p = ?c" by (simp add: order_le_less)
    with lo phc show "ph p = Released \<or> ph p = Cancelled" by blast
  qed
  have 5: "\<forall>p. ph p = Released \<longrightarrow> p < cur ?m'"
  proof (intro allI impI)
    fix p assume "ph p = Released"
    with re have "p < ?c" by blast
    with s1 show "p < cur ?m'" by simp
  qed
  have 6: "\<forall>p. ph p = Admitted \<or> ph p = InLock Enter \<longrightarrow> p = cur ?m' \<and> cur ?m' \<notin> burned ?m'"
    using ad b by blast
  have 7: "\<forall>p ch. ph p = InLock (Park ch) \<longrightarrow>
            waiters ?m' p = Some ch \<or> (p = cur ?m' \<and> cur ?m' \<notin> burned ?m' \<and> ch \<in> set (closed ?m'))"
  proof (intro allI impI)
    fix p ch assume "ph p = InLock (Park ch)"
    with pa b have "waiters m p = Some ch" by blast
    then show "waiters ?m' p = Some ch \<or> (p = cur ?m' \<and> cur ?m' \<notin> burned ?m' \<and> ch \<in> set (closed ?m'))"
      by simp
  qed
  have 8: "\<forall>p. p \<in> burned ?m' \<longleftrightarrow> cur ?m' \<le> p \<and> ph p = Cancelled"
  proof
    fix p
    have "p \<in> burned ?m' \<longleftrightarrow> p \<in> burned m \<and> p \<noteq> ?c" by auto
    also have "\<dots> \<longleftrightarrow> (?c \<le> p \<and> p \<noteq> ?c) \<and> ph p = Cancelled" using bu by blast
    also have "?c \<le> p \<and> p \<noteq> ?c \<longleftrightarrow> ?c < p" by (auto simp: order_le_less)
    also have "?c < p \<longleftrightarrow> cur ?m' \<le> p" by (simp add: s3)
    finally show "p \<in> burned ?m' \<longleftrightarrow> cur ?m' \<le> p \<and> ph p = Cancelled" .
  qed
  have 9: "\<forall>p ch. waiters ?m' p = Some ch \<longrightarrow> ph p = InLock (Park ch)"
    using wa by simp
  have "ph (?c + 1) \<noteq> Admitted"
    using ad b by blast
  then have 10: "adm = filter (\<lambda>p. ph p = Released) (below (cur ?m'))
              @ (if ph (cur ?m') = Admitted then [cur ?m'] else [])"
    using tr phc by (simp add: below_Suc [OF lt])
  from 1 2 3 4 5 6 7 8 9 10 show ?thesis
    by (rule pre_invI)
qed

lemma pre_inv_loop:
  "pre_inv m ph adm \<Longrightarrow> pre_inv (advanceAndWakeNext_loop m) ph adm"
proof (induction m rule: advanceAndWakeNext_loop.induct)
  case (1 m)
  show ?case
  proof (cases "cur m \<in> burned m")
    case True
    from pre_inv_loop_step [OF "1.prems" True] "1.IH" True show ?thesis
      by (simp add: loop_go)
  next
    case False
    with "1.prems" show ?thesis
      by (simp add: loop_stop)
  qed
qed

lemma below_set: "set (below c) = {p. p < c}"
proof (intro set_eqI iffI)
  fix p assume "p \<in> set (below c)"
  then obtain i where i: "i < unat c" "p = of_nat i"
    by (auto simp: below_def)
  have "unat c < 2 ^ 64"
    using unsigned_less [of c, where 'a = nat] by simp
  with i have "unat p = i"
    by (simp add: u64_unat_of_nat)
  with i show "p \<in> {p. p < c}"
    by (simp add: word_less_nat_alt)
next
  fix p assume "p \<in> {p. p < c}"
  then have "unat p < unat c"
    by (simp add: word_less_nat_alt)
  moreover have "p = of_nat (unat p)"
    by simp
  ultimately show "p \<in> set (below c)"
    unfolding below_def by (metis (no_types, lifting) atLeast0LessThan imageI lessThan_iff list.set_map set_upt)
qed

lemma pre_inv_advance:
  assumes inv: "pre_inv m ph adm" and adv: "advanceAndWakeNext m = Inr m'"
  shows "pre_inv m' ph adm" and "cur m' \<notin> burned m'" and "waiters m' (cur m') = None"
proof -
  let ?l = "advanceAndWakeNext_loop m"
  have il: "pre_inv ?l ph adm"
    using inv by (rule pre_inv_loop)
  note f = advance_Inr [OF adv]
  have fr: "waiters ?l = waiters m" "next_id ?l = next_id m" "closed ?l = closed m"
    using loop_frame [of m] by simp_all
  have c: "cur ?l = cur m'" and b: "burned ?l = burned m'" and n: "next_id ?l = next_id m'"
    using f fr by simp_all
  show post: "cur m' \<notin> burned m'"
    using loop_post [of m] c b by simp
  show "waiters m' (cur m') = None"
    using f(3) by simp
  have sub: "set (closed m) \<subseteq> set (closed m')"
    using f(6) by auto
  have 1: "chans_ok m'"
    using pre_invD(1) [OF inv] adv by (rule chans_ok_advance)
  have 7: "\<forall>p ch. ph p = InLock (Park ch) \<longrightarrow>
            waiters m' p = Some ch \<or> (p = cur m' \<and> cur m' \<notin> burned m' \<and> ch \<in> set (closed m'))"
  proof (intro allI impI)
    fix p ch assume "ph p = InLock (Park ch)"
    with pre_invD(7) [OF il] have "waiters m p = Some ch
        \<or> (p = cur m' \<and> cur m' \<notin> burned m' \<and> ch \<in> set (closed m))"
      unfolding fr c b by blast
    then show "waiters m' p = Some ch \<or> (p = cur m' \<and> cur m' \<notin> burned m' \<and> ch \<in> set (closed m'))"
    proof
      assume w: "waiters m p = Some ch"
      show ?thesis
      proof (cases "p = cur m'")
        case True
        with w f(6) have "ch \<in> set (closed m')" by simp
        with True post show ?thesis by blast
      next
        case False
        with w f(3) have "waiters m' p = Some ch" by simp
        then show ?thesis by blast
      qed
    next
      assume "p = cur m' \<and> cur m' \<notin> burned m' \<and> ch \<in> set (closed m)"
      with sub show ?thesis by blast
    qed
  qed
  have 9: "\<forall>p ch. waiters m' p = Some ch \<longrightarrow> ph p = InLock (Park ch)"
  proof (intro allI impI)
    fix p ch assume "waiters m' p = Some ch"
    then have "waiters ?l p = Some ch"
      unfolding fr using f(3) by (metis fun_upd_apply option.distinct(1))
    with pre_invD(9) [OF il] show "ph p = InLock (Park ch)" by blast
  qed
  show "pre_inv m' ph adm"
    using 1 pre_invD(2) [OF il] pre_invD(3) [OF il] pre_invD(4) [OF il] pre_invD(5) [OF il]
      pre_invD(6) [OF il] 7 pre_invD(8) [OF il] 9 pre_invD(10) [OF il]
    unfolding c b n by (rule pre_invI)
qed

lemma sys_inv_init: "sys_inv init"
proof -
  have "pre_inv New (\<lambda>p. Unissued) []"
    by (rule pre_invI) (simp_all add: chans_ok_New, simp_all add: New_def below_def)
  then show ?thesis
    by (simp add: sys_inv_def init_def) (simp add: New_def)
qed

lemma inv_issue:
  assumes inv: "pre_inv m ph adm" and cap: "next_id m \<noteq> - 1"
  shows "pre_inv (m\<lparr>next_id := next_id m + 1\<rparr>) (ph(next_id m := Pending)) adm"
proof -
  let ?n = "next_id m" and ?c = "cur m"
  let ?m' = "m\<lparr>next_id := next_id m + 1\<rparr>" and ?ph = "ph(next_id m := Pending)"
  note d = pre_invD [OF inv]
  from cap have lt: "?n < - 1" by (rule u64_not_last)
  note s1 = u64_less_Suc [OF lt] and s3 = u64_Suc_le_iff [OF lt]
  from d(3) have un: "ph ?n = Unissued" by simp
  have rel: "(\<lambda>p. ?ph p = Released) = (\<lambda>p. ph p = Released)"
    using un by (auto simp: fun_eq_iff)
  have adm: "(?ph ?c = Admitted) = (ph ?c = Admitted)"
    using un by auto
  have other: "?ph p = x \<longleftrightarrow> ph p = x" if "x \<noteq> Pending" "x \<noteq> Unissued" for p x
    using that un by auto
  have 1: "chans_ok ?m'"
    using d(1) by (subst chans_ok_cong [of _ m]) simp_all
  have 2: "cur ?m' \<le> next_id ?m'"
    using d(2) s1 by simp
  have 3: "\<forall>p. ?ph p = Unissued \<longleftrightarrow> next_id ?m' \<le> p"
  proof
    fix p
    show "?ph p = Unissued \<longleftrightarrow> next_id ?m' \<le> p"
    proof (cases "p = ?n")
      case True
      with s1 show ?thesis by (simp add: s3)
    next
      case False
      then have "?ph p = Unissued \<longleftrightarrow> ?n \<le> p" using d(3) by simp
      also have "\<dots> \<longleftrightarrow> ?n < p" using False by (auto simp: order_le_less)
      finally show ?thesis by (simp add: s3)
    qed
  qed
  have 4: "\<forall>p. p < cur ?m' \<longrightarrow> ?ph p = Released \<or> ?ph p = Cancelled"
    using d(4) by (simp add: other del: fun_upd_apply)
  have 5: "\<forall>p. ?ph p = Released \<longrightarrow> p < cur ?m'"
    using d(5) by (simp add: other del: fun_upd_apply)
  have 6: "\<forall>p. ?ph p = Admitted \<or> ?ph p = InLock Enter \<longrightarrow> p = cur ?m' \<and> cur ?m' \<notin> burned ?m'"
    using d(6) by (auto simp add: other simp del: fun_upd_apply)
  have 7: "\<forall>p ch. ?ph p = InLock (Park ch) \<longrightarrow>
      waiters ?m' p = Some ch \<or> (p = cur ?m' \<and> cur ?m' \<notin> burned ?m' \<and> ch \<in> set (closed ?m'))"
    using d(7) by (simp add: other del: fun_upd_apply)
  have 8: "\<forall>p. p \<in> burned ?m' \<longleftrightarrow> cur ?m' \<le> p \<and> ?ph p = Cancelled"
    using d(8) by (simp add: other del: fun_upd_apply)
  have 9: "\<forall>p ch. waiters ?m' p = Some ch \<longrightarrow> ?ph p = InLock (Park ch)"
    using d(9) by (simp add: other del: fun_upd_apply)
  have 10: "adm = filter (\<lambda>p. ?ph p = Released) (below (cur ?m'))
      @ (if ?ph (cur ?m') = Admitted then [cur ?m'] else [])"
    using d(10) adm unfolding rel by simp
  from 1 2 3 4 5 6 7 8 9 10 show ?thesis
    by (rule pre_invI)
qed

lemma inv_lock_call:
  assumes inv: "pre_inv m ph adm" and nb: "cur m \<notin> burned m" and nw: "waiters m (cur m) = None"
    and pt: "ph t = Pending" and le: "Lock_enter m t = (r, m')"
  shows "pre_inv m' (ph(t := InLock r)) adm" and "cur m' \<notin> burned m'"
    and "waiters m' (cur m') = None"
proof -
  let ?ph = "ph(t := InLock r)"
  note d = pre_invD [OF inv]
  have wt: "waiters m t = None"
  proof (cases "waiters m t")
    case (Some ch)
    with d(9) pt show ?thesis by auto
  qed simp
  have other: "?ph p = x \<longleftrightarrow> ph p = x" if "x \<noteq> Pending" "\<forall>r. x \<noteq> InLock r" for p x
    using that pt by auto
  have rel: "(\<lambda>p. ?ph p = Released) = (\<lambda>p. ph p = Released)"
    using pt by (auto simp: fun_eq_iff)
  have 3: "\<forall>p. ?ph p = Unissued \<longleftrightarrow> next_id m \<le> p"
    using d(3) by (simp add: other del: fun_upd_apply)
  have 4: "\<forall>p. p < cur m \<longrightarrow> ?ph p = Released \<or> ?ph p = Cancelled"
    using d(4) by (simp add: other del: fun_upd_apply)
  have 5: "\<forall>p. ?ph p = Released \<longrightarrow> p < cur m"
    using d(5) by (simp add: other del: fun_upd_apply)
  have 8: "\<forall>p. p \<in> burned m \<longleftrightarrow> cur m \<le> p \<and> ?ph p = Cancelled"
    using d(8) by (simp add: other del: fun_upd_apply)
  have adm: "(?ph (cur m) = Admitted) = (ph (cur m) = Admitted)"
    by (simp add: other del: fun_upd_apply)
  have 10: "adm = filter (\<lambda>p. ?ph p = Released) (below (cur m))
      @ (if ?ph (cur m) = Admitted then [cur m] else [])"
    using d(10) unfolding rel adm by simp
  have "pre_inv m' (ph(t := InLock r)) adm \<and> cur m' \<notin> burned m' \<and> waiters m' (cur m') = None"
  proof (cases "t = cur m")
    case True
    with le have r: "r = Enter" and m': "m' = m"
      by (simp_all add: Lock_enter_def)
    have 6: "\<forall>p. ?ph p = Admitted \<or> ?ph p = InLock Enter \<longrightarrow> p = cur m \<and> cur m \<notin> burned m"
      using d(6) True nb by auto
    have 7: "\<forall>p ch. ?ph p = InLock (Park ch) \<longrightarrow>
        waiters m p = Some ch \<or> (p = cur m \<and> cur m \<notin> burned m \<and> ch \<in> set (closed m))"
      using d(7) r by auto
    have 9: "\<forall>p ch. waiters m p = Some ch \<longrightarrow> ?ph p = InLock (Park ch)"
      using d(9) wt by auto
    from d(1) d(2) 3 4 5 6 7 8 9 10 have "pre_inv m ?ph adm"
      by (rule pre_invI)
    with nb nw show ?thesis
      by (simp add: m')
  next
    case False
    with le wt have r: "r = Park (nchan m)"
      and m': "m' = m\<lparr>waiters := (waiters m)(t \<mapsto> nchan m), nchan := nchan m + 1\<rparr>"
      by (simp_all add: Lock_enter_def Let_def)
    have 1: "chans_ok m'"
      using chans_ok_Lock_enter [OF d(1), of t] le by simp
    have 6: "\<forall>p. ?ph p = Admitted \<or> ?ph p = InLock Enter \<longrightarrow> p = cur m' \<and> cur m' \<notin> burned m'"
      using d(6) r by (auto simp: m')
    have 7: "\<forall>p ch. ?ph p = InLock (Park ch) \<longrightarrow>
        waiters m' p = Some ch \<or> (p = cur m' \<and> cur m' \<notin> burned m' \<and> ch \<in> set (closed m'))"
      using d(7) r by (auto simp: m')
    have 9: "\<forall>p ch. waiters m' p = Some ch \<longrightarrow> ?ph p = InLock (Park ch)"
      using d(9) r by (auto simp: m')
    have c: "cur m' = cur m" "next_id m' = next_id m" "burned m' = burned m"
      by (simp_all add: m')
    from 1 d(2) 3 4 5 6 7 8 9 10 have "pre_inv m' ?ph adm"
      unfolding c [symmetric] by (rule pre_invI)
    moreover have "cur m' \<notin> burned m'" "waiters m' (cur m') = None"
      using nb nw False by (simp_all add: m')
    ultimately show ?thesis by simp
  qed
  then show "pre_inv m' (ph(t := InLock r)) adm" and "cur m' \<notin> burned m'"
    and "waiters m' (cur m') = None"
    by simp_all
qed

lemma inv_lock_return:
  assumes inv: "pre_inv m ph adm"
    and pt: "ph t = InLock r" and rdy: "r = Enter \<or> (\<exists>ch. r = Park ch \<and> ch \<in> set (closed m))"
  shows "t = cur m" and "pre_inv m (ph(t := Admitted)) (adm @ [t])"
proof -
  let ?ph = "ph(t := Admitted)"
  note d = pre_invD [OF inv]
  show t: "t = cur m"
    using rdy
  proof
    assume "r = Enter"
    with pt d(6) show ?thesis by blast
  next
    assume "\<exists>ch. r = Park ch \<and> ch \<in> set (closed m)"
    then obtain ch where ch: "r = Park ch" "ch \<in> set (closed m)" by blast
    from d(1) have "waiters_open m" by (simp add: chans_ok_def)
    with ch(2) have "waiters m t \<noteq> Some ch"
      by (auto simp: waiters_open_def)
    with d(7) pt ch(1) show ?thesis by blast
  qed
  have nb: "cur m \<notin> burned m"
  proof
    assume "cur m \<in> burned m"
    with d(8) have "ph (cur m) = Cancelled" by blast
    with pt t show False by simp
  qed
  have other: "?ph p = x \<longleftrightarrow> ph p = x" if "x \<noteq> Admitted" "\<forall>r. x \<noteq> InLock r" for p x
    using that pt by auto
  have rel: "(\<lambda>p. ?ph p = Released) = (\<lambda>p. ph p = Released)"
    using pt by (auto simp: fun_eq_iff)
  have 3: "\<forall>p. ?ph p = Unissued \<longleftrightarrow> next_id m \<le> p"
    using d(3) by (simp add: other del: fun_upd_apply)
  have 4: "\<forall>p. p < cur m \<longrightarrow> ?ph p = Released \<or> ?ph p = Cancelled"
    using d(4) by (simp add: other del: fun_upd_apply)
  have 5: "\<forall>p. ?ph p = Released \<longrightarrow> p < cur m"
    using d(5) by (simp add: other del: fun_upd_apply)
  have 6: "\<forall>p. ?ph p = Admitted \<or> ?ph p = InLock Enter \<longrightarrow> p = cur m \<and> cur m \<notin> burned m"
    using d(6) t nb by auto
  have 7: "\<forall>p ch. ?ph p = InLock (Park ch) \<longrightarrow>
      waiters m p = Some ch \<or> (p = cur m \<and> cur m \<notin> burned m \<and> ch \<in> set (closed m))"
    using d(7) by auto
  have 8: "\<forall>p. p \<in> burned m \<longleftrightarrow> cur m \<le> p \<and> ?ph p = Cancelled"
    using d(8) by (simp add: other del: fun_upd_apply)
  have 9: "\<forall>p ch. waiters m p = Some ch \<longrightarrow> ?ph p = InLock (Park ch)"
  proof (intro allI impI)
    fix p ch assume w: "waiters m p = Some ch"
    with d(9) have a: "ph p = InLock (Park ch)" by blast
    have "p \<noteq> t"
    proof
      assume "p = t"
      with a pt have "r = Park ch" by simp
      with rdy have "ch \<in> set (closed m)" by auto
      moreover from d(1) have "waiters_open m" by (simp add: chans_ok_def)
      ultimately show False using w by (auto simp: waiters_open_def)
    qed
    with a show "?ph p = InLock (Park ch)" by simp
  qed
  have "ph (cur m) \<noteq> Admitted" using pt t by simp
  then have 10: "adm @ [t] = filter (\<lambda>p. ?ph p = Released) (below (cur m))
      @ (if ?ph (cur m) = Admitted then [cur m] else [])"
    using d(10) t unfolding rel by simp
  from d(1) d(2) 3 4 5 6 7 8 9 10 show "pre_inv m ?ph (adm @ [t])"
    by (rule pre_invI)
qed

lemma inv_unlock_pre:
  assumes inv: "pre_inv m ph adm" and pt: "ph t = Admitted"
  shows "t = cur m" and "cur m < next_id m"
    and "pre_inv (m\<lparr>cur := cur m + 1\<rparr>) (ph(t := Released)) adm"
proof -
  let ?c = "cur m" and ?n = "next_id m"
  let ?m' = "m\<lparr>cur := cur m + 1\<rparr>" and ?ph = "ph(t := Released)"
  note d = pre_invD [OF inv]
  from d(6) pt show t: "t = ?c" by blast
  from d(6) pt have nb: "?c \<notin> burned m" by blast
  have "\<not> ?n \<le> ?c"
  proof
    assume "?n \<le> ?c"
    with d(3) have "ph ?c = Unissued" by blast
    with pt t show False by simp
  qed
  then show lt: "?c < ?n" by simp
  note s1 = u64_less_Suc [OF lt] and s2 = u64_Suc_le [OF lt]
    and s3 = u64_Suc_le_iff [OF lt] and s4 = u64_less_Suc_iff [OF lt]
  have other: "?ph p = x \<longleftrightarrow> ph p = x" if "x \<noteq> Admitted" "x \<noteq> Released" for p x
    using that pt by auto
  have 1: "chans_ok ?m'"
    using d(1) by (subst chans_ok_cong [of _ m]) simp_all
  have 2: "cur ?m' \<le> next_id ?m'" using s2 by simp
  have 3: "\<forall>p. ?ph p = Unissued \<longleftrightarrow> next_id ?m' \<le> p"
    using d(3) by (simp add: other del: fun_upd_apply)
  have 4: "\<forall>p. p < cur ?m' \<longrightarrow> ?ph p = Released \<or> ?ph p = Cancelled"
  proof (intro allI impI)
    fix p assume "p < cur ?m'"
    then have "p \<le> ?c" by (simp add: s4)
    then have "p < ?c \<or> p = ?c" by (simp add: order_le_less)
    then show "?ph p = Released \<or> ?ph p = Cancelled"
    proof
      assume "p < ?c"
      with d(4) have "ph p = Released \<or> ph p = Cancelled" by blast
      then show ?thesis by auto
    next
      assume "p = ?c"
      with t show ?thesis by simp
    qed
  qed
  have 5: "\<forall>p. ?ph p = Released \<longrightarrow> p < cur ?m'"
  proof (intro allI impI)
    fix p assume "?ph p = Released"
    then have "p = ?c \<or> ph p = Released" using t by (simp split: if_splits)
    with d(5) have "p = ?c \<or> p < ?c" by blast
    with s1 show "p < cur ?m'" by auto
  qed
  have none: "ph p \<noteq> Admitted \<and> ph p \<noteq> InLock Enter" if "p \<noteq> t" for p
    using d(6) that t by blast
  have 6: "\<forall>p. ?ph p = Admitted \<or> ?ph p = InLock Enter \<longrightarrow> p = cur ?m' \<and> cur ?m' \<notin> burned ?m'"
    using none by (auto split: if_splits)
  have 7: "\<forall>p ch. ?ph p = InLock (Park ch) \<longrightarrow>
      waiters ?m' p = Some ch \<or> (p = cur ?m' \<and> cur ?m' \<notin> burned ?m' \<and> ch \<in> set (closed ?m'))"
  proof (intro allI impI)
    fix p ch assume a: "?ph p = InLock (Park ch)"
    then have "p \<noteq> t" "ph p = InLock (Park ch)" by (auto split: if_splits)
    with d(7) t have "waiters m p = Some ch" by blast
    then show "waiters ?m' p = Some ch \<or> (p = cur ?m' \<and> cur ?m' \<notin> burned ?m' \<and> ch \<in> set (closed ?m'))"
      by simp
  qed
  have 8: "\<forall>p. p \<in> burned ?m' \<longleftrightarrow> cur ?m' \<le> p \<and> ?ph p = Cancelled"
  proof
    fix p
    show "p \<in> burned ?m' \<longleftrightarrow> cur ?m' \<le> p \<and> ?ph p = Cancelled"
    proof (cases "p = ?c")
      case True
      with nb s1 show ?thesis by (simp add: s3)
    next
      case False
      then have "?c \<le> p \<longleftrightarrow> ?c < p" by (auto simp: order_le_less)
      with False d(8) t show ?thesis by (simp add: s3)
    qed
  qed
  have 9: "\<forall>p ch. waiters ?m' p = Some ch \<longrightarrow> ?ph p = InLock (Park ch)"
  proof (intro allI impI)
    fix p ch assume "waiters ?m' p = Some ch"
    with d(9) have a: "ph p = InLock (Park ch)" by simp
    with pt have "p \<noteq> t" by auto
    with a show "?ph p = InLock (Park ch)" by simp
  qed
  have "?c \<notin> set (below ?c)" by (simp add: below_set)
  then have "filter (\<lambda>p. ?ph p = Released) (below ?c) = filter (\<lambda>p. ph p = Released) (below ?c)"
    using t by (intro filter_cong refl) auto
  moreover have "?ph (?c + 1) \<noteq> Admitted"
    using none [of "?c + 1"] by (auto split: if_splits)
  ultimately have 10: "adm = filter (\<lambda>p. ?ph p = Released) (below (cur ?m'))
      @ (if ?ph (cur ?m') = Admitted then [cur ?m'] else [])"
    using d(10) pt t by (simp add: below_Suc [OF lt])
  from 1 2 3 4 5 6 7 8 9 10 show "pre_inv ?m' ?ph adm"
    by (rule pre_invI)
qed

lemma inv_cancel_pre:
  assumes inv: "pre_inv m ph adm" and pt: "ph t = Pending"
  shows "cur m \<le> t"
    and "pre_inv (m\<lparr>burned := insert t (burned m), waiters := (waiters m)(t := None)\<rparr>)
           (ph(t := Cancelled)) adm"
proof -
  let ?c = "cur m"
  let ?m' = "m\<lparr>burned := insert t (burned m), waiters := (waiters m)(t := None)\<rparr>"
  let ?ph = "ph(t := Cancelled)"
  note d = pre_invD [OF inv]
  have "\<not> t < ?c"
  proof
    assume "t < ?c"
    with d(4) pt show False by auto
  qed
  then show le: "?c \<le> t" by simp
  have wt: "waiters m t = None"
  proof (cases "waiters m t")
    case (Some ch)
    with d(9) pt show ?thesis by auto
  qed simp
  then have w: "waiters ?m' = waiters m"
    by (simp add: fun_upd_idem)
  have other: "?ph p = x \<longleftrightarrow> ph p = x" if "x \<noteq> Pending" "x \<noteq> Cancelled" for p x
    using that pt by auto
  have rel: "(\<lambda>p. ?ph p = Released) = (\<lambda>p. ph p = Released)"
    using pt by (auto simp: fun_eq_iff)
  have 1: "chans_ok ?m'"
    using d(1) by (subst chans_ok_cong [of _ m]) (simp_all add: w)
  have 2: "cur ?m' \<le> next_id ?m'" using d(2) by simp
  have 3: "\<forall>p. ?ph p = Unissued \<longleftrightarrow> next_id ?m' \<le> p"
    using d(3) by (simp add: other del: fun_upd_apply)
  have 4: "\<forall>p. p < cur ?m' \<longrightarrow> ?ph p = Released \<or> ?ph p = Cancelled"
    using d(4) by auto
  have 5: "\<forall>p. ?ph p = Released \<longrightarrow> p < cur ?m'"
    using d(5) by (simp add: other del: fun_upd_apply)
  have 6: "\<forall>p. ?ph p = Admitted \<or> ?ph p = InLock Enter \<longrightarrow> p = cur ?m' \<and> cur ?m' \<notin> burned ?m'"
  proof (intro allI impI)
    fix p assume "?ph p = Admitted \<or> ?ph p = InLock Enter"
    then have "p \<noteq> t" "ph p = Admitted \<or> ph p = InLock Enter" by (auto split: if_splits)
    with d(6) show "p = cur ?m' \<and> cur ?m' \<notin> burned ?m'" by auto
  qed
  have 7: "\<forall>p ch. ?ph p = InLock (Park ch) \<longrightarrow>
      waiters ?m' p = Some ch \<or> (p = cur ?m' \<and> cur ?m' \<notin> burned ?m' \<and> ch \<in> set (closed ?m'))"
  proof (intro allI impI)
    fix p ch assume "?ph p = InLock (Park ch)"
    then have "p \<noteq> t" "ph p = InLock (Park ch)" by (auto split: if_splits)
    with d(7) show "waiters ?m' p = Some ch
        \<or> (p = cur ?m' \<and> cur ?m' \<notin> burned ?m' \<and> ch \<in> set (closed ?m'))"
      unfolding w by auto
  qed
  have 8: "\<forall>p. p \<in> burned ?m' \<longleftrightarrow> cur ?m' \<le> p \<and> ?ph p = Cancelled"
    using d(8) le by auto
  have 9: "\<forall>p ch. waiters ?m' p = Some ch \<longrightarrow> ?ph p = InLock (Park ch)"
  proof (intro allI impI)
    fix p ch assume "waiters ?m' p = Some ch"
    with d(9) have a: "ph p = InLock (Park ch)" unfolding w by simp
    with pt have "p \<noteq> t" by auto
    with a show "?ph p = InLock (Park ch)" by simp
  qed
  have "(?ph ?c = Admitted) = (ph ?c = Admitted)"
    by (simp add: other del: fun_upd_apply)
  then have 10: "adm = filter (\<lambda>p. ?ph p = Released) (below (cur ?m'))
      @ (if ?ph (cur ?m') = Admitted then [cur ?m'] else [])"
    using d(10) unfolding rel by simp
  from 1 2 3 4 5 6 7 8 9 10 show "pre_inv ?m' ?ph adm"
    by (rule pre_invI)
qed

lemma inv_cancel_again:
  assumes inv: "pre_inv m ph adm" and nb: "cur m \<notin> burned m"
    and pt: "ph t = Released \<or> ph t = Cancelled" and nlt: "\<not> t < cur m"
  shows "m\<lparr>burned := insert t (burned m), waiters := (waiters m)(t := None)\<rparr> = m"
proof -
  note d = pre_invD [OF inv]
  from pt d(5) nlt have c: "ph t = Cancelled" by blast
  with d(8) nlt have "t \<in> burned m" by auto
  moreover have "waiters m t = None"
  proof (cases "waiters m t")
    case (Some ch)
    with d(9) c show ?thesis by auto
  qed simp
  ultimately show ?thesis
    by (simp add: insert_absorb fun_upd_idem)
qed

lemma sys_inv_step:
  assumes inv: "sys_inv s" and st: "step s e s'"
  shows "sys_inv s'"
proof -
  from inv have pi: "pre_inv (mem s) (phases s) (admitted s)"
    and nb: "cur (mem s) \<notin> burned (mem s)" and nw: "waiters (mem s) (cur (mem s)) = None"
    by (simp_all add: sys_inv_def)
  from st show ?thesis
  proof (cases rule: step.cases)
    case (issue t m')
    from issue(4) have "(next_id (mem s), (mem s)\<lparr>next_id := next_id (mem s) + 1\<rparr>) = (t, m')"
      unfolding GetTicket_eq .
    then have t: "t = next_id (mem s)" and m': "m' = (mem s)\<lparr>next_id := next_id (mem s) + 1\<rparr>"
      by auto
    from inv_issue [OF pi issue(3)] nb nw show ?thesis
      unfolding issue(2) by (simp add: sys_inv_def t m')
  next
    case (lock_call t r m')
    from inv_lock_call [OF pi nb nw lock_call(3) lock_call(4)] show ?thesis
      unfolding lock_call(2) by (simp add: sys_inv_def)
  next
    case (lock_return_fast t)
    from inv_lock_return [OF pi lock_return_fast(3)] nb nw show ?thesis
      unfolding lock_return_fast(2) by (simp add: sys_inv_def)
  next
    case (lock_return_woken t ch)
    from lock_return_woken(4) have "ch \<in> set (closed (mem s))"
      by (simp add: recv_ready_def)
    with inv_lock_return [OF pi lock_return_woken(3)] nb nw show ?thesis
      unfolding lock_return_woken(2) by (simp add: sys_inv_def)
  next
    case (unlock t m')
    note u = inv_unlock_pre [OF pi unlock(3)]
    from unlock(4) u(1) have "advanceAndWakeNext ((mem s)\<lparr>cur := cur (mem s) + 1\<rparr>) = Inr m'"
      by (simp add: Unlock_def)
    from pre_inv_advance [OF u(3) this] show ?thesis
      unfolding unlock(2) by (simp add: sys_inv_def)
  next
    case (cancel t m')
    note c = inv_cancel_pre [OF pi cancel(3)]
    have "advanceAndWakeNext ((mem s)\<lparr>burned := insert t (burned (mem s)),
        waiters := (waiters (mem s))(t := None)\<rparr>) = Inr m'"
      unfolding ReturnTicket_unfold [OF c(1), symmetric] by (rule cancel(4))
    from pre_inv_advance [OF c(2) this] show ?thesis
      unfolding cancel(2) by (simp add: sys_inv_def)
  next
    case (cancel_again t m')
    show ?thesis
    proof (cases "t < cur (mem s)")
      case True
      with cancel_again(4) have "m' = mem s"
        by (simp add: ReturnTicket_def)
      with inv show ?thesis
        unfolding cancel_again(2) by (simp add: sys_inv_def)
    next
      case False
      then have le: "cur (mem s) \<le> t" by simp
      have "advanceAndWakeNext (mem s) = Inr m'"
        using cancel_again(4)
        unfolding ReturnTicket_unfold [OF le] inv_cancel_again [OF pi nb cancel_again(3) False] .
      from pre_inv_advance [OF pi this] show ?thesis
        unfolding cancel_again(2) by (simp add: sys_inv_def)
    qed
  qed
qed

lemma legal_sys_inv: "legal s \<Longrightarrow> sys_inv s"
proof (induction rule: legal.induct)
  case legal_init
  show ?case by (rule sys_inv_init)
next
  case (legal_step s e s')
  from legal_step.IH legal_step.hyps(2) show ?case
    by (rule sys_inv_step)
qed


lemma legal_one_holder:
  assumes "legal s" and "phases s p = Admitted" and "phases s q = Admitted"
  shows "p = q"
proof -
  from assms(1) have "sys_inv s" by (rule legal_sys_inv)
  then have "pre_inv (mem s) (phases s) (admitted s)"
    by (simp add: sys_inv_def)
  from pre_invD(6) [OF this] assms(2,3) show ?thesis by blast
qed


section \<open>Running a sequence of events\<close>

lemma fire_step:
  assumes "fire e s = Some s'"
  shows "step s e s'"
proof (cases e)
  case (Issue t)
  with assms have g: "next_id (mem s) \<noteq> - 1" and t: "fst (GetTicket (mem s)) = t"
    and s': "s' = s\<lparr>mem := snd (GetTicket (mem s)), phases := (phases s)(t := Pending)\<rparr>"
    by (auto split: if_splits)
  from t have "GetTicket (mem s) = (t, snd (GetTicket (mem s)))"
    by (metis prod.collapse)
  with g show ?thesis
    unfolding Issue s' by (rule step.issue)
next
  case (LockCall t)
  with assms have g: "phases s t = Pending"
    and s': "s' = s\<lparr>mem := snd (Lock_enter (mem s) t),
                   phases := (phases s)(t := InLock (fst (Lock_enter (mem s) t)))\<rparr>"
    by (auto split: if_splits)
  have "Lock_enter (mem s) t = (fst (Lock_enter (mem s) t), snd (Lock_enter (mem s) t))"
    by simp
  with g show ?thesis
    unfolding LockCall s' by (rule step.lock_call)
next
  case (LockReturn t)
  with assms have g: "phases s t = InLock Enter
         \<or> (\<exists>ch \<in> set (closed (mem s)). phases s t = InLock (Park ch))"
    and s': "s' = s\<lparr>phases := (phases s)(t := Admitted), admitted := admitted s @ [t]\<rparr>"
    by (auto split: if_splits)
  from g show ?thesis
  proof
    assume "phases s t = InLock Enter"
    then show ?thesis
      unfolding LockReturn s' by (rule step.lock_return_fast)
  next
    assume "\<exists>ch \<in> set (closed (mem s)). phases s t = InLock (Park ch)"
    then obtain ch where "phases s t = InLock (Park ch)" "recv_ready (mem s) ch"
      by (auto simp: recv_ready_def)
    then show ?thesis
      unfolding LockReturn s' by (rule step.lock_return_woken)
  qed
next
  case (UnlockCall t)
  with assms obtain m' where u: "Unlock (mem s) t = Inr m'" and g: "phases s t = Admitted"
    and s': "s' = s\<lparr>mem := m', phases := (phases s)(t := Released)\<rparr>"
    by (auto split: sum.splits if_splits)
  from g u show ?thesis
    unfolding UnlockCall s' by (rule step.unlock)
next
  case (Cancel t)
  with assms obtain m' where r: "ReturnTicket (mem s) t = Inr m'"
    and c: "(phases s t = Pending \<and> s' = s\<lparr>mem := m', phases := (phases s)(t := Cancelled)\<rparr>)
      \<or> ((phases s t = Released \<or> phases s t = Cancelled) \<and> s' = s\<lparr>mem := m'\<rparr>)"
    by (auto split: sum.splits if_splits)
  from c show ?thesis
  proof
    assume a: "phases s t = Pending \<and> s' = s\<lparr>mem := m', phases := (phases s)(t := Cancelled)\<rparr>"
    then have "phases s t = Pending" by simp
    from this r have "step s (Cancel t) (s\<lparr>mem := m', phases := (phases s)(t := Cancelled)\<rparr>)"
      by (rule step.cancel)
    with a show ?thesis by (simp add: Cancel)
  next
    assume a: "(phases s t = Released \<or> phases s t = Cancelled) \<and> s' = s\<lparr>mem := m'\<rparr>"
    then have "phases s t = Released \<or> phases s t = Cancelled" by simp
    from this r have "step s (Cancel t) (s\<lparr>mem := m'\<rparr>)"
      by (rule step.cancel_again)
    with a show ?thesis by (simp add: Cancel)
  qed
qed

lemma fire_all_legal:
  "legal s \<Longrightarrow> fire_all es s = Some s' \<Longrightarrow> legal s'"
proof (induction es arbitrary: s)
  case Nil
  then show ?case by simp
next
  case (Cons e es)
  from Cons.prems(2) obtain s1 where f: "fire e s = Some s1" and r: "fire_all es s1 = Some s'"
    by (auto split: option.splits)
  from Cons.prems(1) fire_step [OF f] have "legal s1"
    by (rule legal_step)
  from this r show ?case
    by (rule Cons.IH)
qed


lemma demo_held_run: "fire_all (take 7 demo_events) init = Some demo_held"
  by (simp add: demo_events_def demo_held_def init_def New_def GetTicket_eq Lock_enter_def
      Unlock_def ReturnTicket_def advanceAndWakeNext_def close_chan_def loop_go loop_stop
      fun_eq_iff)

lemma demo_held_legal: "legal demo_held"
  using legal_init demo_held_run by (rule fire_all_legal)

lemma demo_held_step: "step demo_held (UnlockCall 0) demo_woken"
  by (rule fire_step)
    (simp add: demo_held_def demo_woken_def Unlock_def advanceAndWakeNext_def close_chan_def
      loop_go loop_stop fun_eq_iff)

lemma demo_woken_legal: "legal demo_woken"
  using demo_held_legal demo_held_step by (rule legal_step)




section \<open>The documented invariant\<close>

lemma sys_inv_spec_inv:
  assumes "sys_inv s"
  shows "spec_inv (mem s)"
proof -
  from assms have pi: "pre_inv (mem s) (phases s) (admitted s)"
    by (simp add: sys_inv_def)
  note d = pre_invD [OF pi]
  have "cur (mem s) \<le> p" if "waiters (mem s) p = Some ch" for p ch
  proof (rule ccontr)
    assume "\<not> cur (mem s) \<le> p"
    then have "p < cur (mem s)" by simp
    with d(4) have "phases s p = Released \<or> phases s p = Cancelled" by blast
    moreover from d(9) that have "phases s p = InLock (Park ch)" by blast
    ultimately show False by auto
  qed
  moreover have "\<forall>p\<in>burned (mem s). cur (mem s) \<le> p"
    using d(8) by blast
  ultimately show ?thesis
    using d(2) unfolding spec_inv_def by blast
qed

text \<open>
  C7. The predicate \<open>next \<ge> cur\<close>, waiters only at positions \<open>\<ge> cur\<close>, no burned position
  \<open>< cur\<close> holds of \<open>New\<close>, in every state that callers keeping the usage contract can
  reach, and so after every step such callers take from such a state.
\<close>

theorem spec_invariant_preserved:
  "spec_inv New
   \<and> (legal s \<longrightarrow> spec_inv (mem s))
   \<and> (legal s \<and> step s e s' \<longrightarrow> spec_inv (mem s'))"
proof -
  have "spec_inv New"
    by (simp add: spec_inv_def New_def)
  moreover have "spec_inv (mem s)" if "legal s" for s
    using that by (intro sys_inv_spec_inv legal_sys_inv)
  moreover have "spec_inv (mem s')" if "legal s \<and> step s e s'"
  proof -
    from that have "legal s'" by (auto intro: legal_step)
    then show ?thesis by (intro sys_inv_spec_inv legal_sys_inv)
  qed
  ultimately show ?thesis by blast
qed

theorem spec_invariant_preserved_witness:
  "legal demo_held \<and> step demo_held (UnlockCall 0) demo_woken
   \<and> spec_inv (mem demo_held) \<and> spec_inv (mem demo_woken)
   \<and> cur (mem demo_held) = 0 \<and> cur (mem demo_woken) = 2"
proof -
  note t = spec_invariant_preserved [of demo_held "UnlockCall 0" demo_woken]
  from t demo_held_legal have "spec_inv (mem demo_held)" by blast
  moreover from t demo_held_legal demo_held_step have "spec_inv (mem demo_woken)" by blast
  moreover have "cur (mem demo_held) = 0" "cur (mem demo_woken) = 2"
    by (simp_all add: demo_held_def demo_woken_def)
  ultimately show ?thesis
    using demo_held_legal demo_held_step by (intro conjI)
qed

section \<open>When \<open>Lock\<close> returns\<close>

text \<open>
  C6. Under the usage contract, whenever a \<open>Lock\<close> returns, on the fast path or after its
  channel was closed, \<open>cur\<close> is its position at that moment, and the return changes nothing of
  the mutex. The critical section of a \<open>Lock\<close> called with the current \<open>cur\<close> decides to
  return at once and leaves the whole state (\<open>cur\<close>, \<open>next\<close>, \<open>waiters\<close>, \<open>burned\<close>, channels)
  as it was.
\<close>

theorem Lock_returns_only_at_cur:
  "(legal s \<and> step s (LockReturn t) s' \<longrightarrow> cur (mem s) = t \<and> mem s' = mem s)
   \<and> (tid = cur m \<longrightarrow> Lock_enter m tid = (Enter, m))"
proof -
  have "cur (mem s) = t \<and> mem s' = mem s" if l: "legal s" and st: "step s (LockReturn t) s'"
  proof -
    from l have "sys_inv s" by (rule legal_sys_inv)
    then have pi: "pre_inv (mem s) (phases s) (admitted s)"
      by (simp add: sys_inv_def)
    from st show ?thesis
    proof (cases rule: step.cases)
      case lock_return_fast
      from inv_lock_return(1) [OF pi lock_return_fast(2)] lock_return_fast(1) show ?thesis
        by simp
    next
      case (lock_return_woken ch)
      from lock_return_woken(3) have "ch \<in> set (closed (mem s))"
        by (simp add: recv_ready_def)
      with inv_lock_return(1) [OF pi lock_return_woken(2)] lock_return_woken(1) show ?thesis
        by simp
    qed
  qed
  moreover have "tid = cur m \<longrightarrow> Lock_enter m tid = (Enter, m)"
    by (simp add: Lock_enter_def)
  ultimately show ?thesis
    by blast
qed

theorem Lock_returns_only_at_cur_witness:
  "legal demo_woken
   \<and> step demo_woken (LockReturn 2)
       (demo_woken\<lparr>phases := (phases demo_woken)(2 := Admitted), admitted := admitted demo_woken @ [2]\<rparr>)
   \<and> cur (mem demo_woken) = 2
   \<and> (1 :: u64) = cur busy_state
   \<and> Lock_enter busy_state 1 = (Enter, busy_state)"
proof -
  let ?s' = "demo_woken\<lparr>phases := (phases demo_woken)(2 := Admitted),
    admitted := admitted demo_woken @ [2]\<rparr>"
  have st: "step demo_woken (LockReturn 2) ?s'"
    by (rule step.lock_return_woken [of _ _ 0]) (simp_all add: demo_woken_def recv_ready_def)
  have c: "(1 :: u64) = cur busy_state"
    by (simp add: busy_state_def)
  from Lock_returns_only_at_cur [of demo_woken 2 ?s' 1 busy_state] demo_woken_legal st c
  have "cur (mem demo_woken) = 2" "Lock_enter busy_state 1 = (Enter, busy_state)"
    by blast+
  with demo_woken_legal st c show ?thesis
    by (intro conjI)
qed

section \<open>\<open>cur\<close> never moves back\<close>

lemma loop_upto:
  assumes "cur m \<le> q" and "q \<notin> burned m"
  shows "cur m \<le> cur (advanceAndWakeNext_loop m)
    \<and> cur (advanceAndWakeNext_loop m) \<le> q
    \<and> burned (advanceAndWakeNext_loop m)
        = burned m - {p. cur m \<le> p \<and> p < cur (advanceAndWakeNext_loop m)}"
  using assms
proof (induction m rule: advanceAndWakeNext_loop.induct)
  case (1 m)
  show ?case
  proof (cases "cur m \<in> burned m")
    case False
    then show ?thesis
      using "1.prems" by (auto simp: loop_stop)
  next
    case True
    let ?m1 = "m\<lparr>burned := burned m - {cur m}, cur := cur m + 1\<rparr>"
    let ?r = "advanceAndWakeNext_loop ?m1"
    from True "1.prems" have "cur m \<noteq> q" by blast
    with "1.prems" have lt: "cur m < q" by simp
    then have step: "cur m < cur m + 1" and le: "cur m + 1 \<le> q"
      by (rule u64_less_Suc, rule u64_Suc_le)
    have "cur ?m1 \<le> q" "q \<notin> burned ?m1"
      using "1.prems" le by simp_all
    with "1.IH" True have ih: "cur m + 1 \<le> cur ?r" "cur ?r \<le> q"
      "burned ?r = burned m - {cur m} - {p. cur m + 1 \<le> p \<and> p < cur ?r}"
      by simp_all
    have r: "advanceAndWakeNext_loop m = ?r"
      by (rule loop_go [OF True])
    have a: "cur m \<le> cur ?r"
      using step ih(1) by simp
    have split: "cur m \<le> p \<longleftrightarrow> p = cur m \<or> cur m + 1 \<le> p" for p
    proof
      assume "cur m \<le> p"
      then show "p = cur m \<or> cur m + 1 \<le> p"
        by (rule u64_le_cases [OF lt])
    next
      assume "p = cur m \<or> cur m + 1 \<le> p"
      then show "cur m \<le> p"
      proof
        assume "p = cur m" then show ?thesis by simp
      next
        assume "cur m + 1 \<le> p"
        with step show ?thesis by simp
      qed
    qed
    have c: "burned ?r = burned m - {p. cur m \<le> p \<and> p < cur ?r}"
    proof (rule set_eqI)
      fix p
      have "cur m < cur ?r" using step ih(1) by simp
      then have "(cur m \<le> p \<and> p < cur ?r) \<longleftrightarrow> (p = cur m \<or> cur m + 1 \<le> p \<and> p < cur ?r)"
        using split [of p] by blast
      then show "p \<in> burned ?r \<longleftrightarrow> p \<in> burned m - {p. cur m \<le> p \<and> p < cur ?r}"
        unfolding ih(3) by blast
    qed
    from a ih(2) c show ?thesis
      by (simp only: r)
  qed
qed

lemma cur_mono_call:
  assumes r: "run_call c m = Inr m'" and w: "within_width c m"
  shows "cur m \<le> cur m'"
proof (cases c)
  case CGetTicket
  with r have "m\<lparr>next_id := next_id m + 1\<rparr> = m'"
    by (simp add: GetTicket_def Let_def)
  then have "cur m' = cur m" by auto
  then show ?thesis by simp
next
  case (CLock tid)
  with r have "snd (Lock_enter m tid) = m'" by simp
  then have "cur m' = cur m" using Lock_enter_cur [of m tid] by simp
  then show ?thesis by simp
next
  case (CUnlock tid)
  with r have u: "Unlock m tid = Inr m'" by simp
  then have t: "tid = cur m"
    by (simp add: Unlock_def split: if_splits)
  let ?m1 = "m\<lparr>cur := cur m + 1\<rparr>"
  from u t have adv: "advanceAndWakeNext ?m1 = Inr m'"
    by (simp add: Unlock_def)
  from w CUnlock obtain q where q: "cur m < q" "q \<notin> burned m" by auto
  from q(1) have step: "cur m < cur m + 1" by (rule u64_less_Suc)
  from q(1) have "cur m + 1 \<le> q" by (rule u64_Suc_le)
  then have "cur ?m1 \<le> q" "q \<notin> burned ?m1" using q(2) by simp_all
  then have "cur ?m1 \<le> cur (advanceAndWakeNext_loop ?m1)"
    using loop_upto [of ?m1 q] by blast
  with step advance_Inr(1) [OF adv] show ?thesis by simp
next
  case (CReturnTicket tid)
  with r have rt: "ReturnTicket m tid = Inr m'" by simp
  show ?thesis
  proof (cases "tid < cur m")
    case True
    with rt have "m = m'" by (simp add: ReturnTicket_def)
    then show ?thesis by simp
  next
    case False
    then have le: "cur m \<le> tid" by simp
    let ?m2 = "m\<lparr>burned := insert tid (burned m), waiters := (waiters m)(tid := None)\<rparr>"
    have adv: "advanceAndWakeNext ?m2 = Inr m'"
      unfolding ReturnTicket_unfold [OF le, symmetric] by (rule rt)
    from w CReturnTicket False obtain q where q: "cur m \<le> q" "q \<noteq> tid" "q \<notin> burned m"
      by auto
    then have "cur ?m2 \<le> q" "q \<notin> burned ?m2" by simp_all
    then have "cur ?m2 \<le> cur (advanceAndWakeNext_loop ?m2)"
      using loop_upto [of ?m2 q] by blast
    with advance_Inr(1) [OF adv] show ?thesis by simp
  qed
qed

lemma ReturnTicket_twice:
  assumes op: "waiters_open m" and w: "within_width (CReturnTicket p) m"
  shows "\<exists>m1. ReturnTicket m p = Inr m1 \<and> ReturnTicket m1 p = Inr m1"
proof (cases "p < cur m")
  case True
  then show ?thesis by (simp add: ReturnTicket_def)
next
  case False
  then have le: "cur m \<le> p" by simp
  from w False obtain q where q: "cur m \<le> q" "q \<noteq> p" "q \<notin> burned m"
    by auto
  let ?m2 = "m\<lparr>burned := insert p (burned m), waiters := (waiters m)(p := None)\<rparr>"
  have op2: "waiters_open ?m2"
    unfolding waiters_open_def
  proof (intro allI impI)
    fix q ch assume "waiters ?m2 q = Some ch"
    then have "waiters m q = Some ch" by (simp split: if_splits)
    with op show "ch \<notin> set (closed ?m2)" by (simp add: waiters_open_def)
  qed
  show ?thesis
  proof (rule advance_fields [OF op2])
    fix n m1
    assume adv: "advanceAndWakeNext ?m2 = Inr m1"
    let ?l = "advanceAndWakeNext_loop ?m2"
    note f = advance_Inr [OF adv]
    have "cur ?m2 \<le> q" "q \<notin> burned ?m2"
      using q by simp_all
    then have lb: "burned ?l = burned ?m2 - {x. cur ?m2 \<le> x \<and> x < cur ?l}"
      using loop_upto [of ?m2 q] by blast
    have post: "cur m1 \<notin> burned m1"
      using loop_post [of ?m2] f(1,2) by simp
    have w0: "waiters m1 (cur m1) = None"
      using f(3) by simp
    have first: "ReturnTicket m p = Inr m1"
      unfolding ReturnTicket_unfold [OF le] by (rule adv)
    have second: "ReturnTicket m1 p = Inr m1"
    proof (cases "p < cur m1")
      case True
      then show ?thesis by (simp add: ReturnTicket_def)
    next
      case False
      then have le1: "cur m1 \<le> p" by simp
      with False have "p \<in> burned ?l"
        unfolding lb using f(1) by simp
      then have pb: "p \<in> burned m1" using f(2) by simp
      have pw: "waiters m1 p = None"
        using f(3) by simp
      have same: "m1\<lparr>burned := insert p (burned m1), waiters := (waiters m1)(p := None)\<rparr> = m1"
        using pb pw by (simp add: insert_absorb fun_upd_idem)
      have "advanceAndWakeNext m1 = Inr m1"
        using post w0 by (simp add: advanceAndWakeNext_def loop_stop)
      then show ?thesis
        unfolding ReturnTicket_unfold [OF le1] same .
    qed
    from first second show ?thesis by blast
  qed
qed

lemma legal_within_width:
  assumes l: "legal s"
  shows "phases s t = Admitted \<longrightarrow> within_width (CUnlock t) (mem s)"
    and "phases s p \<noteq> Unissued \<or> p \<noteq> - 1 \<or> cur (mem s) \<noteq> - 1
      \<longrightarrow> within_width (CReturnTicket p) (mem s)"
proof -
  let ?c = "cur (mem s)" and ?n = "next_id (mem s)"
  from l have "sys_inv s" by (rule legal_sys_inv)
  then have pi: "pre_inv (mem s) (phases s) (admitted s)" and nb: "?c \<notin> burned (mem s)"
    by (simp_all add: sys_inv_def)
  note d = pre_invD [OF pi]
  from d(3) have un: "phases s ?n = Unissued" by simp
  have nnb: "?n \<notin> burned (mem s)"
  proof
    assume "?n \<in> burned (mem s)"
    with d(8) have "phases s ?n = Cancelled" by blast
    with un show False by simp
  qed
  have issued: "x < ?n" if "phases s x \<noteq> Unissued" for x
  proof (rule ccontr)
    assume "\<not> x < ?n"
    then have "?n \<le> x" by simp
    with d(3) that show False by blast
  qed
  have lastnb: "- 1 \<notin> burned (mem s)"
  proof
    assume "- 1 \<in> burned (mem s)"
    with d(8) have "phases s (- 1) = Cancelled" by blast
    then have "- 1 < ?n" by (intro issued) simp
    then show False by simp
  qed
  show "phases s t = Admitted \<longrightarrow> within_width (CUnlock t) (mem s)"
  proof
    assume a: "phases s t = Admitted"
    with d(6) have "t = ?c" by blast
    with a have "?c < ?n" by (intro issued) simp
    with nnb show "within_width (CUnlock t) (mem s)" by auto
  qed
  show "phases s p \<noteq> Unissued \<or> p \<noteq> - 1 \<or> cur (mem s) \<noteq> - 1
      \<longrightarrow> within_width (CReturnTicket p) (mem s)"
  proof
    assume h: "phases s p \<noteq> Unissued \<or> p \<noteq> - 1 \<or> cur (mem s) \<noteq> - 1"
    show "within_width (CReturnTicket p) (mem s)"
    proof (cases "phases s p \<noteq> Unissued")
      case True
      then have "p < ?n" by (rule issued)
      then have "?n \<noteq> p" by simp
      with d(2) nnb show ?thesis by auto
    next
      case False
      show ?thesis
      proof (cases "?c = p")
        case False
        with nb show ?thesis by auto
      next
        case True
        with h \<open>\<not> phases s p \<noteq> Unissued\<close> have "p \<noteq> - 1" by auto
        moreover have "?c \<le> - 1" by simp
        ultimately show ?thesis using lastnb by auto
      qed
    qed
  qed
qed

text \<open>
  C8. \<open>cur\<close> is monotonically non-decreasing. In every run of callers that keep the usage
  contract, each step (issuing a position, \<open>Lock\<close> entering or returning, \<open>Unlock\<close>,
  \<open>ReturnTicket\<close>) leaves \<open>cur\<close> at least where it was. And from any starting state whatever,
  a call that returns normally leaves \<open>cur\<close> at least where it was, as long as its skip run
  stays within the counter width.
\<close>

theorem cur_never_moves_back:
  "(legal s \<and> step s e s' \<longrightarrow> cur (mem s) \<le> cur (mem s'))
   \<and> (run_call c m = Inr m' \<and> within_width c m \<longrightarrow> cur m \<le> cur m')"
proof -
  have "cur (mem s) \<le> cur (mem s')" if l: "legal s" and st: "step s e s'"
  using st proof (cases rule: step.cases)
    case (issue t m1)
    from issue(4) have "m1 = (mem s)\<lparr>next_id := next_id (mem s) + 1\<rparr>"
      by (auto simp: GetTicket_eq)
    then show ?thesis
      unfolding issue(2) by simp
  next
    case (lock_call t r m1)
    from lock_call(4) have "m1 = snd (Lock_enter (mem s) t)" by simp
    then show ?thesis
      unfolding lock_call(2) by (simp add: Lock_enter_cur)
  next
    case (lock_return_fast t)
    then show ?thesis by simp
  next
    case (lock_return_woken t ch)
    then show ?thesis by simp
  next
    case (unlock t m1)
    from unlock(4) have "run_call (CUnlock t) (mem s) = Inr m1" by simp
    moreover from legal_within_width(1) [OF l, of t] unlock(3)
    have "within_width (CUnlock t) (mem s)" by blast
    ultimately have "cur (mem s) \<le> cur m1" by (rule cur_mono_call)
    then show ?thesis
      unfolding unlock(2) by simp
  next
    case (cancel t m1)
    from cancel(4) have "run_call (CReturnTicket t) (mem s) = Inr m1" by simp
    moreover from legal_within_width(2) [OF l, of t] cancel(3)
    have "within_width (CReturnTicket t) (mem s)" by simp
    ultimately have "cur (mem s) \<le> cur m1" by (rule cur_mono_call)
    then show ?thesis
      unfolding cancel(2) by simp
  next
    case (cancel_again t m1)
    from cancel_again(4) have "run_call (CReturnTicket t) (mem s) = Inr m1" by simp
    moreover from cancel_again(3) have "phases s t \<noteq> Unissued" by auto
    with legal_within_width(2) [OF l, of t]
    have "within_width (CReturnTicket t) (mem s)" by blast
    ultimately have "cur (mem s) \<le> cur m1" by (rule cur_mono_call)
    then show ?thesis
      unfolding cancel_again(2) by simp
  qed
  moreover have "cur m \<le> cur m'" if "run_call c m = Inr m'" "within_width c m"
    using that by (rule cur_mono_call)
  ultimately show ?thesis by blast
qed

theorem cur_never_moves_back_witness:
  "legal demo_held \<and> step demo_held (UnlockCall 0) demo_woken
   \<and> cur (mem demo_held) \<le> cur (mem demo_woken)
   \<and> cur (mem demo_held) = 0 \<and> cur (mem demo_woken) = 2
   \<and> run_call (CUnlock 1) busy_state
       = Inr \<lparr>next_id = 6, cur = 3, waiters = [5 \<mapsto> 1], burned = {4}, nchan = 2, closed = [0]\<rparr>
   \<and> within_width (CUnlock 1) busy_state
   \<and> cur busy_state
       \<le> cur \<lparr>next_id = 6, cur = 3, waiters = [5 \<mapsto> 1], burned = {4}, nchan = 2, closed = [0]\<rparr>"
proof -
  let ?m' = "\<lparr>next_id = 6, cur = 3, waiters = [5 \<mapsto> 1], burned = {4}, nchan = 2, closed = [0]\<rparr>"
  have r: "run_call (CUnlock 1) busy_state = Inr ?m'"
    by (simp add: Unlock_def advanceAndWakeNext_def close_chan_def busy_state_def
        loop_go loop_stop)
  have w: "within_width (CUnlock 1) busy_state"
    by (simp add: busy_state_def) (rule exI [of _ 3], simp)
  note t = cur_never_moves_back [of demo_held "UnlockCall 0" demo_woken "CUnlock 1" busy_state ?m']
  from t demo_held_legal demo_held_step have a: "cur (mem demo_held) \<le> cur (mem demo_woken)"
    by blast
  from t r w have b: "cur busy_state \<le> cur ?m'"
    by blast
  have c: "cur (mem demo_held) = 0" "cur (mem demo_woken) = 2"
    by (simp_all add: demo_held_def demo_woken_def)
  from demo_held_legal demo_held_step a c r w b show ?thesis
    by (intro conjI)
qed

section \<open>Cancelling twice\<close>

text \<open>
  C10. Cancelling is idempotent for every position, pending ones included. In every state of
  a run of callers that keep the usage contract, for every issued position \<open>p\<close> (and for every
  position not yet issued too, short of position \<open>2^64 - 1\<close> when \<open>cur\<close> has reached it):
  \<open>ReturnTicket p\<close> returns normally, and a second \<open>ReturnTicket p\<close> right after it returns
  normally with exactly the state the first one produced. The same holds in every state
  reachable through the interface, and in every state whose waiter channels are open, as
  long as the skip run of the first call stays within the counter width.
\<close>

theorem ReturnTicket_idempotent:
  "(legal s \<and> (phases s p \<noteq> Unissued \<or> p \<noteq> - 1 \<or> cur (mem s) \<noteq> - 1) \<longrightarrow>
      (\<exists>m1. ReturnTicket (mem s) p = Inr m1 \<and> ReturnTicket m1 p = Inr m1))
   \<and> (reachable r \<and> within_width (CReturnTicket q) r \<longrightarrow>
      (\<exists>m1. ReturnTicket r q = Inr m1 \<and> ReturnTicket m1 q = Inr m1))
   \<and> (waiters_open m \<and> within_width (CReturnTicket tid) m \<longrightarrow>
      (\<exists>m1. ReturnTicket m tid = Inr m1 \<and> ReturnTicket m1 tid = Inr m1))"
proof -
  have a: "\<exists>m1. ReturnTicket (mem s) p = Inr m1 \<and> ReturnTicket m1 p = Inr m1"
    if l: "legal s" and h: "phases s p \<noteq> Unissued \<or> p \<noteq> - 1 \<or> cur (mem s) \<noteq> - 1"
  proof -
    from l have "sys_inv s" by (rule legal_sys_inv)
    then have "pre_inv (mem s) (phases s) (admitted s)"
      by (simp add: sys_inv_def)
    from pre_invD(1) [OF this] have "waiters_open (mem s)"
      by (simp add: chans_ok_def)
    moreover from legal_within_width(2) [OF l, of p] h
    have "within_width (CReturnTicket p) (mem s)" by blast
    ultimately show ?thesis by (rule ReturnTicket_twice)
  qed
  have b: "\<exists>m1. ReturnTicket r q = Inr m1 \<and> ReturnTicket m1 q = Inr m1"
    if "reachable r" "within_width (CReturnTicket q) r"
  proof -
    from that(1) have "chans_ok r" by (rule reachable_chans_ok)
    then have "waiters_open r" by (simp add: chans_ok_def)
    from this that(2) show ?thesis by (rule ReturnTicket_twice)
  qed
  have c: "\<exists>m1. ReturnTicket m tid = Inr m1 \<and> ReturnTicket m1 tid = Inr m1"
    if "waiters_open m" "within_width (CReturnTicket tid) m"
    using that by (rule ReturnTicket_twice)
  from a b c show ?thesis by blast
qed

theorem ReturnTicket_idempotent_witness:
  "legal demo_held \<and> phases demo_held 2 \<noteq> Unissued
   \<and> (\<exists>m1. ReturnTicket (mem demo_held) 2 = Inr m1 \<and> ReturnTicket m1 2 = Inr m1)
   \<and> reachable New \<and> within_width (CReturnTicket 0) New
   \<and> (\<exists>m1. ReturnTicket New 0 = Inr m1 \<and> ReturnTicket m1 0 = Inr m1)
   \<and> waiters_open busy_state \<and> within_width (CReturnTicket 1) busy_state
   \<and> (\<exists>m1. ReturnTicket busy_state 1 = Inr m1 \<and> ReturnTicket m1 1 = Inr m1)
   \<and> ReturnTicket busy_state 1
       = Inr \<lparr>next_id = 6, cur = 3, waiters = [5 \<mapsto> 1], burned = {4}, nchan = 2, closed = [0]\<rparr>
   \<and> ReturnTicket \<lparr>next_id = 6, cur = 3, waiters = [5 \<mapsto> 1], burned = {4}, nchan = 2, closed = [0]\<rparr> 1
       = Inr \<lparr>next_id = 6, cur = 3, waiters = [5 \<mapsto> 1], burned = {4}, nchan = 2, closed = [0]\<rparr>"
proof -
  let ?m1 = "\<lparr>next_id = 6, cur = 3, waiters = [5 \<mapsto> 1], burned = {4}, nchan = 2, closed = [0]\<rparr>"
  have ph: "phases demo_held 2 \<noteq> Unissued"
    by (simp add: demo_held_def)
  have rn: "reachable New"
    by (rule reachable.intros(1))
  have wn: "within_width (CReturnTicket 0) New"
    by (simp add: New_def) (rule exI [of _ 1], simp)
  have op: "waiters_open busy_state"
    by (simp add: waiters_open_def busy_state_def)
  have w: "within_width (CReturnTicket 1) busy_state"
    by (simp add: busy_state_def) (rule exI [of _ 3], simp)
  have e: "ReturnTicket busy_state 1 = Inr ?m1"
    by (simp add: ReturnTicket_def advanceAndWakeNext_def close_chan_def busy_state_def
        loop_go loop_stop)
  have e2: "ReturnTicket ?m1 1 = Inr ?m1"
    by (simp add: ReturnTicket_def)
  note t = ReturnTicket_idempotent [of demo_held 2 New 0 busy_state 1]
  from t demo_held_legal ph
  have a: "\<exists>m1. ReturnTicket (mem demo_held) 2 = Inr m1 \<and> ReturnTicket m1 2 = Inr m1"
    by blast
  from t rn wn
  have b: "\<exists>m1. ReturnTicket New 0 = Inr m1 \<and> ReturnTicket m1 0 = Inr m1"
    by blast
  from t op w
  have c: "\<exists>m1. ReturnTicket busy_state 1 = Inr m1 \<and> ReturnTicket m1 1 = Inr m1"
    by blast
  from demo_held_legal ph a rn wn b op w c e e2 show ?thesis
    by (intro conjI)
qed

section \<open>The order of admissions\<close>

















section \<open>Past the counter width\<close>

text \<open>
  What the code does once the counters have run through all \<open>2^64\<close> positions; this is the
  reason for the width conditions above. Releasing or cancelling position \<open>2^64 - 1\<close> takes
  \<open>cur\<close> back to 0, and call number \<open>2^64 + 1\<close> of \<open>GetTicket\<close> returns 0 again.
\<close>

lemma reachable_resolved: "reachable (New\<lparr>next_id := of_nat k, cur := of_nat k\<rparr>)"
proof (induction k)
  case 0
  have "New\<lparr>next_id := of_nat 0, cur := of_nat 0\<rparr> = New"
    by (simp add: New_def)
  then show ?case
    by (simp add: reachable_New)
next
  case (Suc k)
  let ?a = "New\<lparr>next_id := of_nat k, cur := of_nat k\<rparr>"
  let ?b = "New\<lparr>next_id := of_nat (Suc k), cur := of_nat k\<rparr>"
  let ?c = "New\<lparr>next_id := of_nat (Suc k), cur := of_nat (Suc k)\<rparr>"
  have "run_call CGetTicket ?a = Inr ?b"
    by (simp add: GetTicket_def Let_def)
  with Suc have b: "reachable ?b"
    by (rule reachable_call)
  have "run_call (CLock (of_nat k)) ?b = Inr ?b"
    by (simp add: Lock_enter_def)
  with b have b': "reachable ?b"
    by (rule reachable_call)
  have "run_call (CUnlock (of_nat k)) ?b = Inr ?c"
    by (simp add: Unlock_def advanceAndWakeNext_def loop_stop New_def)
  with b' show ?case
    by (rule reachable_call)
qed

lemma reachable_last_state: "reachable last_state"
proof -
  let ?a = "New\<lparr>next_id := of_nat (2 ^ 64 - 1), cur := of_nat (2 ^ 64 - 1)\<rparr>"
  have "(of_nat (2 ^ 64 - 1) :: u64) = - 1"
    by simp
  then have "run_call CGetTicket ?a = Inr last_state"
    by (simp add: GetTicket_def Let_def last_state_def)
  with reachable_resolved [of "2 ^ 64 - 1"] show ?thesis
    by (rule reachable_call)
qed

lemma Unlock_last_wraps_cur:
  "Unlock last_state (- 1) = Inr (last_state\<lparr>cur := 0\<rparr>)
   \<and> cur (last_state\<lparr>cur := 0\<rparr>) < cur last_state"
  by (simp add: last_state_def New_def Unlock_def advanceAndWakeNext_def loop_stop word_gt_0)

lemma ReturnTicket_last_not_idempotent:
  "reachable last_state
   \<and> ReturnTicket last_state (- 1) = Inr (last_state\<lparr>cur := 0\<rparr>)
   \<and> ReturnTicket (last_state\<lparr>cur := 0\<rparr>) (- 1) = Inr (last_state\<lparr>cur := 0, burned := {- 1}\<rparr>)
   \<and> last_state\<lparr>cur := 0\<rparr> \<noteq> last_state\<lparr>cur := 0, burned := {- 1}\<rparr>"
proof -
  have a: "ReturnTicket last_state (- 1) = Inr (last_state\<lparr>cur := 0\<rparr>)"
    by (simp add: last_state_def New_def ReturnTicket_def advanceAndWakeNext_def loop_go loop_stop)
  have b: "ReturnTicket (last_state\<lparr>cur := 0\<rparr>) (- 1) = Inr (last_state\<lparr>cur := 0, burned := {- 1}\<rparr>)"
    by (simp add: last_state_def New_def ReturnTicket_def advanceAndWakeNext_def loop_stop word_gt_0)
  have c: "last_state\<lparr>cur := 0\<rparr> \<noteq> last_state\<lparr>cur := 0, burned := {- 1}\<rparr>"
    by (simp add: last_state_def New_def)
  from reachable_last_state a b c show ?thesis
    by (intro conjI)
qed

lemma GetTicket_wraps_after_all_issued:
  "issued_by (replicate (2 ^ 64 + 1) CGetTicket) New ! (2 ^ 64)
    = issued_by (replicate (2 ^ 64 + 1) CGetTicket) New ! 0"
proof -
  have "issued_by (replicate (2 ^ 64 + 1) CGetTicket) New ! i = of_nat i" if "i < 2 ^ 64 + 1" for i
    unfolding issued_by_replicate using that by (simp add: New_def del: upt_Suc replicate_Suc)
  from this [of "2 ^ 64"] this [of 0] show ?thesis
    by simp
qed

end
